theory Spec2Isabelle
  imports Main
begin

section \<open>Characters and strings\<close>

text \<open>
  The programs run in the "C" locale and pass every character through
  \<^verbatim>\<open>(unsigned char)\<close>, so the \<^verbatim>\<open>ctype.h\<close> predicates are the ASCII ones.
  A \<^verbatim>\<open>std::string\<close> is a list of 8-bit characters.
\<close>

definition isspace :: "char \<Rightarrow> bool" where
  "isspace c = (c \<in> set [CHR '' '', CHR 0x09, CHR 0x0A, CHR 0x0B, CHR 0x0C, CHR 0x0D])"

definition isdigit :: "char \<Rightarrow> bool" where
  "isdigit c = (c \<in> set ''0123456789'')"

definition isupper :: "char \<Rightarrow> bool" where
  "isupper c = (c \<in> set ''ABCDEFGHIJKLMNOPQRSTUVWXYZ'')"

definition islower :: "char \<Rightarrow> bool" where
  "islower c = (c \<in> set ''abcdefghijklmnopqrstuvwxyz'')"

definition isalnum :: "char \<Rightarrow> bool" where
  "isalnum c = (isdigit c \<or> isupper c \<or> islower c)"

definition tolower :: "char \<Rightarrow> char" where
  "tolower c =
     (case map_of (zip ''ABCDEFGHIJKLMNOPQRSTUVWXYZ'' ''abcdefghijklmnopqrstuvwxyz'') c of
        Some l \<Rightarrow> l
      | None \<Rightarrow> c)"

text \<open>\<^verbatim>\<open>to_lower\<close>, \<^verbatim>\<open>starts_with\<close> and \<^verbatim>\<open>trim\<close> of spider.cpp.\<close>

definition to_lower :: "string \<Rightarrow> string" where
  "to_lower s = map tolower s"

definition starts_with :: "string \<Rightarrow> string \<Rightarrow> bool" where
  "starts_with s pref = (take (length pref) s = pref)"

definition trim :: "string \<Rightarrow> string" where
  "trim s = rev (dropWhile isspace (rev (dropWhile isspace s)))"

text \<open>
  \<^verbatim>\<open>s.find_first_of("?#")\<close> followed by \<^verbatim>\<open>substr(0, pos)\<close>: the text before the
  first \<^verbatim>\<open>?\<close> or \<^verbatim>\<open>#\<close>, the whole string when there is none. spider.c has it
  as the function \<^verbatim>\<open>strip_qf\<close>, which puts a NUL where \<^verbatim>\<open>strpbrk(s, "?#")\<close> points.
\<close>

definition strip_qf :: "string \<Rightarrow> string" where
  "strip_qf s = takeWhile (\<lambda>c. c \<noteq> CHR ''?'' \<and> c \<noteq> CHR ''#'') s"

section \<open>Regular expressions of the C++ standard library\<close>

text \<open>
  \<^verbatim>\<open>std::regex\<close> with the default ECMAScript grammar is a backtracking matcher:
  alternatives are tried left to right, a quantifier is greedy, and the first
  path that succeeds is the match. \<open>bt r st\<close> lists, in that order of
  preference, the states in which \<open>r\<close> can finish when started in \<open>st\<close>. A state
  holds the character before the current position (for \<^verbatim>\<open>\b\<close> and \<^verbatim>\<open>^\<close>), the
  text still to be read and the capture groups set so far.
\<close>

datatype rx =
    Sym "char \<Rightarrow> bool"
  | Eps
  | Seq rx rx
  | Alt rx rx
  | Star rx
  | Grp nat rx
  | WordB
  | Bol
  | Eol

type_synonym mstate = "char option \<times> string \<times> (nat \<rightharpoonup> string)"

definition is_word :: "char option \<Rightarrow> bool" where
  "is_word oc = (case oc of None \<Rightarrow> False | Some c \<Rightarrow> isalnum c \<or> c = CHR ''_'')"

function bt :: "rx \<Rightarrow> mstate \<Rightarrow> mstate list" where
  "bt (Sym P) (pc, s, cs) =
     (case s of [] \<Rightarrow> [] | c # s' \<Rightarrow> if P c then [(Some c, s', cs)] else [])"
| "bt Eps st = [st]"
| "bt (Seq r1 r2) st = concat (map (bt r2) (bt r1 st))"
| "bt (Alt r1 r2) st = bt r1 st @ bt r2 st"
| "bt (Star r) (pc, s, cs) =
     concat (map (\<lambda>(pc', s', cs'). if length s' < length s then bt (Star r) (pc', s', cs') else [])
                 (bt r (pc, s, cs)))
     @ [(pc, s, cs)]"
| "bt (Grp n r) (pc, s, cs) =
     map (\<lambda>(pc', s', cs'). (pc', s', cs'(n \<mapsto> take (length s - length s') s)))
         (bt r (pc, s, cs))"
| "bt WordB (pc, s, cs) =
     (if is_word pc \<noteq> is_word (case s of [] \<Rightarrow> None | c # _ \<Rightarrow> Some c) then [(pc, s, cs)] else [])"
| "bt Bol (pc, s, cs) = (if pc = None then [(pc, s, cs)] else [])"
| "bt Eol (pc, s, cs) = (if s = [] then [(pc, s, cs)] else [])"
  by pat_completeness auto
termination
  by (relation "measures [\<lambda>(r, st). size r, \<lambda>(r, pc, s, cs). length s]") auto

declare bt.simps(5) [simp del]

text \<open>Pattern syntax: a literal under \<^verbatim>\<open>icase\<close>, \<^verbatim>\<open>r?\<close>, \<^verbatim>\<open>r+\<close>, a sequence.\<close>

definition ci :: "char \<Rightarrow> rx" where
  "ci a = Sym (\<lambda>c. tolower c = tolower a)"

definition Opt :: "rx \<Rightarrow> rx" where
  "Opt r = Alt r Eps"

definition Plus :: "rx \<Rightarrow> rx" where
  "Plus r = Seq r (Star r)"

definition seqs :: "rx list \<Rightarrow> rx" where
  "seqs rs = foldr Seq rs Eps"

definition lit :: "string \<Rightarrow> rx" where
  "lit s = seqs (map ci s)"

text \<open>\<^verbatim>\<open>.\<close> matches every character but a line terminator.\<close>

definition dot :: "char \<Rightarrow> bool" where
  "dot c = (c \<noteq> CHR 0x0A \<and> c \<noteq> CHR 0x0D)"

text \<open>
  \<^verbatim>\<open>std::regex_match\<close>: the first path that ends at the end of the input;
  the result is its capture groups.
\<close>

definition regex_match :: "rx \<Rightarrow> string \<Rightarrow> (nat \<rightharpoonup> string) option" where
  "regex_match r s =
     (case filter (\<lambda>(pc, s', cs). s' = []) (bt r (None, s, Map.empty)) of
        [] \<Rightarrow> None
      | (pc, s', cs) # _ \<Rightarrow> Some cs)"

text \<open>
  \<^verbatim>\<open>std::regex_search\<close>: the match at the leftmost position that has one. The
  answer is the offset of the match, its length and its capture groups.
\<close>

fun regex_search :: "rx \<Rightarrow> char option \<Rightarrow> string \<Rightarrow> (nat \<times> nat \<times> (nat \<rightharpoonup> string)) option" where
  "regex_search r pc s =
     (case bt r (pc, s, Map.empty) of
        (pc', s', cs) # _ \<Rightarrow> Some (0, length s - length s', cs)
      | [] \<Rightarrow>
          (case s of
             [] \<Rightarrow> None
           | c # t \<Rightarrow> map_option (\<lambda>(i, n, cs). (Suc i, n, cs)) (regex_search r (Some c) t)))"

text \<open>
  \<^verbatim>\<open>std::sregex_iterator\<close>: the successive matches, each search starting where the
  match before ended and seeing the character before it. The answer lists the
  matched texts with their capture groups. Every pattern of this program needs
  at least one character, so the iterator's special rule after an empty match
  is never taken; the function stops there.
\<close>

function all_matches :: "rx \<Rightarrow> char option \<Rightarrow> string \<Rightarrow> (string \<times> (nat \<rightharpoonup> string)) list" where
  "all_matches r pc s =
     (case regex_search r pc s of
        None \<Rightarrow> []
      | Some (i, n, cs) \<Rightarrow>
          (take n (drop i s), cs)
          # (if i + n = 0 \<or> length s < i + n then []
             else all_matches r (Some (s ! (i + n - 1))) (drop (i + n) s)))"
  by pat_completeness auto
termination
  by (relation "measure (\<lambda>(r, pc, s). length s)") auto

declare regex_search.simps [simp del]
declare all_matches.simps [simp del]

section \<open>URL parsing and joining (spider.cpp)\<close>

record UrlParts =
  scheme :: string
  host :: string
  path :: string

text \<open>The pattern \<^verbatim>\<open>^\s*(https?)://([^/]+)(/.*)?\s*$\<close>, case-insensitive.\<close>

definition url_re :: rx where
  "url_re = seqs [Bol, Star (Sym isspace),
                  Grp 1 (seqs [lit ''http'', Opt (ci CHR ''s'')]),
                  lit ''://'',
                  Grp 2 (Plus (Sym (\<lambda>c. c \<noteq> CHR ''/''))),
                  Opt (Grp 3 (seqs [Sym (\<lambda>c. c = CHR ''/''), Star (Sym dot)])),
                  Star (Sym isspace), Eol]"

definition parse_url :: "string \<Rightarrow> UrlParts option" where
  "parse_url url =
     (case regex_match url_re url of
        None \<Rightarrow> None
      | Some m \<Rightarrow>
          (let p1 = to_lower (case m 1 of Some x \<Rightarrow> x | None \<Rightarrow> []);
               p2 = (case m 2 of Some x \<Rightarrow> x | None \<Rightarrow> []);
               p3 = (case m 3 of Some x \<Rightarrow> x | None \<Rightarrow> ''/'')
           in Some \<lparr>scheme = p1, host = p2, path = (if p3 = [] then ''/'' else p3)\<rparr>))"

text \<open>
  \<^verbatim>\<open>url_base_dir\<close>. The source reads \<^verbatim>\<open>path.back()\<close> after cutting the query, which
  is undefined on an empty string; a path made by \<open>parse_url\<close> starts with \<^verbatim>\<open>/\<close>,
  so the cut path is never empty there. The model answers \<^verbatim>\<open>/\<close> for an empty
  cut path, and the theorems on relative references assume a path that starts
  with \<^verbatim>\<open>/\<close>.
\<close>

definition url_base_dir :: "UrlParts \<Rightarrow> string" where
  "url_base_dir base =
     (let path0 = path base in
      if path0 = [] then ''/''
      else
        let path1 = strip_qf path0 in
        if path1 \<noteq> [] \<and> last path1 = CHR ''/'' then path1
        else if CHR ''/'' \<notin> set path1 then ''/''
        else rev (dropWhile (\<lambda>c. c \<noteq> CHR ''/'') (rev path1)))"

definition normalize_url :: "string \<Rightarrow> string" where
  "normalize_url url = trim url"

text \<open>
  The three loops of the relative branch of \<^verbatim>\<open>join_url\<close>: cutting the combined
  path at \<^verbatim>\<open>/\<close> (\<open>tmp\<close> is the segment being read, \<open>parts\<close> the segments found),
  resolving \<^verbatim>\<open>.\<close> and \<^verbatim>\<open>..\<close> on the stack \<open>norm\<close>, and writing the result.
\<close>

fun split_loop :: "string \<Rightarrow> string \<Rightarrow> string list \<Rightarrow> string list" where
  "split_loop [] tmp parts = (if tmp \<noteq> [] then parts @ [tmp] else parts)"
| "split_loop (c # cs) tmp parts =
     (if c = CHR ''/'' then
        (if tmp \<noteq> [] then split_loop cs [] (parts @ [tmp]) else split_loop cs tmp parts)
      else split_loop cs (tmp @ [c]) parts)"

fun norm_loop :: "string list \<Rightarrow> string list \<Rightarrow> string list" where
  "norm_loop [] norm = norm"
| "norm_loop (seg # segs) norm =
     (if seg = ''.'' \<or> seg = [] then norm_loop segs norm
      else if seg = ''..'' then
        (if norm \<noteq> [] then norm_loop segs (butlast norm) else norm_loop segs norm)
      else norm_loop segs (norm @ [seg]))"

fun out_loop :: "string list \<Rightarrow> string \<Rightarrow> string" where
  "out_loop [] out = out"
| "out_loop (seg # segs) out =
     out_loop segs (if segs \<noteq> [] then out @ seg @ ''/'' else out @ seg)"

text \<open>\<^verbatim>\<open>join_url\<close>; the empty string is the "skip" answer.\<close>

definition join_url :: "UrlParts \<Rightarrow> string \<Rightarrow> string" where
  "join_url base href =
     (let h = normalize_url href in
      if h = [] then []
      else
        let hl = to_lower h in
        if starts_with hl ''javascript:'' \<or> starts_with hl ''mailto:'' then []
        else if hd h = CHR ''#'' then []
        else if starts_with hl ''http://'' \<or> starts_with hl ''https://'' then h
        else if starts_with h ''//'' then scheme base @ '':'' @ h
        else if starts_with h ''/'' then scheme base @ ''://'' @ host base @ h
        else
          let dir = url_base_dir base;
              combined = dir @ h;
              parts = split_loop combined [] [];
              norm = norm_loop parts [];
              out = out_loop norm ''/''
          in scheme base @ ''://'' @ host base @ out)"

section \<open>Image filters (spider.cpp)\<close>

definition is_image_url :: "string \<Rightarrow> bool" where
  "is_image_url url =
     (let u = strip_qf (to_lower url) in
      list_ex (\<lambda>e. length u \<ge> length e \<and> drop (length u - length e) u = e)
        [''.jpg'', ''.jpeg'', ''.png'', ''.gif'', ''.bmp''])"

definition find_last_of :: "string \<Rightarrow> char \<Rightarrow> nat option" where
  "find_last_of s c =
     (if c \<in> set s then Some (length s - Suc (length (takeWhile (\<lambda>x. x \<noteq> c) (rev s))))
      else None)"

definition safe_char :: "char \<Rightarrow> char" where
  "safe_char c =
     (if \<not> (isalnum c \<or> c = CHR ''.'' \<or> c = CHR ''_'' \<or> c = CHR ''-'') then CHR ''_'' else c)"

definition filename_from_url :: "string \<Rightarrow> string" where
  "filename_from_url url =
     (let u = strip_qf url in
      case find_last_of u CHR ''/'' of
        None \<Rightarrow> ''image.bin''
      | Some slash \<Rightarrow>
          if slash + 1 \<ge> length u then ''image.bin''
          else
            let name = drop (slash + 1) u;
                name = (if name = [] then ''image.bin'' else name)
            in map safe_char name)"


section \<open>HTML extraction (spider.cpp)\<close>

text \<open>
  The attribute pattern \<^verbatim>\<open>NAME\s*=\s*("([^"]*)"|'([^']*)'|([^\s>]+))\<close> and the tag
  pattern \<^verbatim>\<open><\s*TAG\b[^>]*>\<close>, both case-insensitive. The program builds them
  for the names \<^verbatim>\<open>src\<close>, \<^verbatim>\<open>href\<close>, \<^verbatim>\<open>img\<close> and \<^verbatim>\<open>a\<close> only, which are plain letters.
\<close>

definition attr_re :: "string \<Rightarrow> rx" where
  "attr_re an =
     seqs [lit an, Star (Sym isspace), ci CHR ''='', Star (Sym isspace),
           Grp 1 (Alt (seqs [ci CHR 0x22, Grp 2 (Star (Sym (\<lambda>c. c \<noteq> CHR 0x22))), ci CHR 0x22])
                 (Alt (seqs [ci CHR 0x27, Grp 3 (Star (Sym (\<lambda>c. c \<noteq> CHR 0x27))), ci CHR 0x27])
                      (Grp 4 (Plus (Sym (\<lambda>c. \<not> isspace c \<and> c \<noteq> CHR ''>''))))))]"

definition tag_re :: "string \<Rightarrow> rx" where
  "tag_re tn =
     seqs [ci CHR ''<'', Star (Sym isspace), lit tn, WordB,
           Star (Sym (\<lambda>c. c \<noteq> CHR ''>'')), ci CHR ''>'']"

text \<open>The value of a match: group 2, else group 3, else group 4.\<close>

definition attr_value :: "(nat \<rightharpoonup> string) \<Rightarrow> string" where
  "attr_value m =
     (case m 2 of
        Some v \<Rightarrow> v
      | None \<Rightarrow> (case m 3 of Some v \<Rightarrow> v | None \<Rightarrow> (case m 4 of Some v \<Rightarrow> v | None \<Rightarrow> [])))"

definition extract_attr_urls :: "string \<Rightarrow> string \<Rightarrow> string list" where
  "extract_attr_urls html attrName =
     filter (\<lambda>v. v \<noteq> [])
       (map (\<lambda>(txt, m). trim (attr_value m)) (all_matches (attr_re attrName) None html))"

definition extract_img_srcs :: "string \<Rightarrow> string list" where
  "extract_img_srcs html =
     concat (map (\<lambda>(tag, m). extract_attr_urls tag ''src'') (all_matches (tag_re ''img'') None html))"

definition extract_a_hrefs :: "string \<Rightarrow> string list" where
  "extract_a_hrefs html =
     concat (map (\<lambda>(tag, m). extract_attr_urls tag ''href'') (all_matches (tag_re ''a'') None html))"

section \<open>HTML extraction (spider.c)\<close>

text \<open>
  A C string ends at its first NUL byte: that is all the C functions see of a
  buffer.
\<close>

definition cstr :: "string \<Rightarrow> string" where
  "cstr s = takeWhile (\<lambda>c. c \<noteq> CHR 0x00) s"

text \<open>
  \<^verbatim>\<open>regexec\<close> of POSIX (\<^verbatim>\<open>REG_EXTENDED | REG_ICASE\<close>, no \<^verbatim>\<open>REG_NEWLINE\<close>): the match
  starts at the leftmost position that has one and is the longest from there.
  Among the ways to match that longest text, the capture groups are those of
  the first way in the order of \<open>bt\<close>. Every call starts at the beginning of
  its string.
\<close>

definition longest :: "mstate list \<Rightarrow> mstate option" where
  "longest ms =
     (case ms of
        [] \<Rightarrow> None
      | m # ms' \<Rightarrow>
          Some (foldl (\<lambda>b x. if length (fst (snd x)) < length (fst (snd b)) then x else b) m ms'))"

fun regexec_from :: "rx \<Rightarrow> char option \<Rightarrow> string \<Rightarrow> (nat \<times> nat \<times> (nat \<rightharpoonup> string)) option" where
  "regexec_from r pc s =
     (case longest (bt r (pc, s, Map.empty)) of
        Some (pc', s', cs) \<Rightarrow> Some (0, length s - length s', cs)
      | None \<Rightarrow>
          (case s of
             [] \<Rightarrow> None
           | c # t \<Rightarrow> map_option (\<lambda>(i, n, cs). (Suc i, n, cs)) (regexec_from r (Some c) t)))"

definition regexec :: "rx \<Rightarrow> string \<Rightarrow> (nat \<times> nat \<times> (nat \<rightharpoonup> string)) option" where
  "regexec r s = regexec_from r None s"

text \<open>
  \<^verbatim>\<open>extract_tag_attrs\<close> of spider.c. The patterns are those of spider.cpp, written
  with \<^verbatim>\<open>[[:space:]]\<close> for \<^verbatim>\<open>\s\<close>. \<open>attr_step\<close> is what the loop does with one tag:
  one \<^verbatim>\<open>regexec\<close> of the attribute pattern, and the value of that one match if it
  is not empty. \<open>tag_loop\<close> is the \<^verbatim>\<open>while\<close> loop (\<open>so\<close> and \<open>n\<close> are \<^verbatim>\<open>rm_so\<close> and
  \<^verbatim>\<open>rm_eo - rm_so\<close>); a match never ends beyond the string (\<open>regex_search_bound\<close>
  and \<open>regexec_from_det\<close> below), the second test is there for the termination
  proof only.
\<close>

definition attr_step :: "rx \<Rightarrow> string \<Rightarrow> string list \<Rightarrow> string list" where
  "attr_step attrre tag out =
     (case regexec attrre tag of
        None \<Rightarrow> out
      | Some (so, n, ma) \<Rightarrow>
          let val = attr_value ma in
          if val \<noteq> [] then (let ss = trim val in if ss \<noteq> [] then out @ [ss] else out)
          else out)"

function tag_loop :: "rx \<Rightarrow> rx \<Rightarrow> string \<Rightarrow> string list \<Rightarrow> string list" where
  "tag_loop tagre attrre p out =
     (case regexec tagre p of
        None \<Rightarrow> out
      | Some (so, n, m) \<Rightarrow>
          if n = 0 \<or> length p < so + n then out
          else tag_loop tagre attrre (drop (so + n) p)
                 (attr_step attrre (take n (drop so p)) out))"
  by pat_completeness auto
termination
  by (relation "measure (\<lambda>(tagre, attrre, p, out). length p)") auto

declare tag_loop.simps [simp del]
declare regexec_from.simps [simp del]

definition extract_tag_attrs :: "string \<Rightarrow> string \<Rightarrow> string \<Rightarrow> string list" where
  "extract_tag_attrs html tagname attr = tag_loop (tag_re tagname) (attr_re attr) (cstr html) []"


text \<open>A pattern that matches in at most one way from every state.\<close>

definition det :: "rx \<Rightarrow> bool" where
  "det r = (\<forall>st. length (bt r st) \<le> 1)"

section \<open>URL joining (spider.c)\<close>

text \<open>
  The C program keeps its strings in arrays of \<^verbatim>\<open>PATH_MAX\<close> bytes. Where a string
  is only copied from one array to another, the model is the string, cut to
  the room the copy has: \<^verbatim>\<open>strncpy(dst, src, n - 1); dst[n - 1] = '\0'\<close> and
  \<^verbatim>\<open>snprintf(dst, n, ...)\<close> leave the first \<open>n - 1\<close> bytes of the text.
\<close>

definition PATH_MAX :: nat where
  "PATH_MAX = 4096"

text \<open>
  \<^verbatim>\<open>rtrim\<close> puts a NUL over every trailing white-space byte; \<^verbatim>\<open>ltrim\<close> returns a
  pointer into the same array, here the offset of the first byte that is not
  white space.
\<close>

definition rtrim :: "string \<Rightarrow> string" where
  "rtrim s = rev (dropWhile isspace (rev s))"

definition ltrim :: "string \<Rightarrow> nat" where
  "ltrim s = length (takeWhile isspace s)"

fun starts_with_ci :: "string \<Rightarrow> string \<Rightarrow> bool" where
  "starts_with_ci s [] = True"
| "starts_with_ci [] (p # pref) = False"
| "starts_with_ci (c # s) (p # pref) =
     (if tolower c \<noteq> tolower p then False else starts_with_ci s pref)"

definition base_dir_from_path :: "string \<Rightarrow> nat \<Rightarrow> string" where
  "base_dir_from_path p outsz =
     (let tmp = strip_qf (take (PATH_MAX - 1) p);
          n = length tmp
      in if n = 0 then take (outsz - 1) ''/''
         else if tmp ! (n - 1) = CHR ''/'' then take (outsz - 1) tmp
         else if CHR ''/'' \<notin> set tmp then take (outsz - 1) ''/''
         else take (outsz - 1) (rev (dropWhile (\<lambda>c. c \<noteq> CHR ''/'') (rev tmp))))"

text \<open>
  The relative branch of \<^verbatim>\<open>join_url\<close> calls
  \<^verbatim>\<open>snprintf(buf, sizeof(buf), "%s%s", dir, h)\<close> with \<^verbatim>\<open>h\<close> pointing into \<^verbatim>\<open>buf\<close>: the
  text is read from the array it is written to. For this call the array is
  modelled byte by byte, as a function from the index to the byte.
  \<open>array_of s\<close> is \<^verbatim>\<open>buf\<close> as \<^verbatim>\<open>strncpy\<close> and \<^verbatim>\<open>rtrim\<close> leave it: the bytes of \<open>s\<close>,
  then NUL bytes. \<open>str_at mem k n\<close> is the string that starts at offset \<open>k\<close>,
  with \<open>n\<close> the number of bytes the array has from there.

  The C standard gives no meaning to \<^verbatim>\<open>snprintf\<close> between overlapping objects.
  The model is the C library's way of working: the output is written into
  \<^verbatim>\<open>buf\<close> from left to right, never beyond \<open>sz - 1\<close> bytes; the length of a
  \<^verbatim>\<open>%s\<close> argument is taken when its turn comes, and that many bytes are copied
  one after another from the lowest address; the closing NUL is written last.
\<close>

type_synonym chars = "nat \<Rightarrow> char"

definition array_of :: "string \<Rightarrow> chars" where
  "array_of s = (\<lambda>i. if i < length s then s ! i else CHR 0x00)"

fun str_at :: "chars \<Rightarrow> nat \<Rightarrow> nat \<Rightarrow> string" where
  "str_at mem k 0 = []"
| "str_at mem k (Suc n) = (if mem k = CHR 0x00 then [] else mem k # str_at mem (Suc k) n)"

fun put_str :: "string \<Rightarrow> nat \<Rightarrow> nat \<Rightarrow> chars \<Rightarrow> chars" where
  "put_str [] dst lim mem = mem"
| "put_str (c # cs) dst lim mem =
     (if dst < lim then put_str cs (Suc dst) lim (mem(dst := c)) else mem)"

fun copy_fwd :: "nat \<Rightarrow> nat \<Rightarrow> nat \<Rightarrow> nat \<Rightarrow> chars \<Rightarrow> chars" where
  "copy_fwd 0 src dst lim mem = mem"
| "copy_fwd (Suc n) src dst lim mem =
     (if dst < lim then copy_fwd n (Suc src) (Suc dst) lim (mem(dst := mem src)) else mem)"

definition snprintf_dir_h :: "chars \<Rightarrow> nat \<Rightarrow> string \<Rightarrow> nat \<Rightarrow> chars" where
  "snprintf_dir_h buf sz dir h =
     (let m1 = put_str dir 0 (sz - 1) buf;
          d = min (length dir) (sz - 1);
          n = length (str_at m1 h (sz - h));
          m2 = copy_fwd n h d (sz - 1) m1
      in m2(min (d + n) (sz - 1) := CHR 0x00))"

text \<open>
  \<^verbatim>\<open>normalize_rel_path\<close>: the tokens of \<^verbatim>\<open>strtok_r(tmp, "/", &save)\<close>, the loop that
  keeps at most 1024 segments, and the \<^verbatim>\<open>strncat\<close> loop that writes them.
\<close>

function strtok_loop :: "string \<Rightarrow> string list" where
  "strtok_loop s =
     (let s1 = dropWhile (\<lambda>c. c = CHR ''/'') s in
      if s1 = [] then []
      else takeWhile (\<lambda>c. c \<noteq> CHR ''/'') s1
           # strtok_loop (drop 1 (dropWhile (\<lambda>c. c \<noteq> CHR ''/'') s1)))"
  by pat_completeness auto
termination
proof (relation "measure length", goal_cases)
  case 1 show ?case by simp
next
  case (2 s s1)
  have "length (dropWhile (\<lambda>c. c \<noteq> CHR ''/'') s1) \<le> length s1" by (rule length_dropWhile_le)
  moreover have "length s1 \<le> length s" unfolding 2(1) by (rule length_dropWhile_le)
  ultimately show ?case using 2(2) by (cases s1) auto
qed

declare strtok_loop.simps [simp del]

fun seg_loop :: "string list \<Rightarrow> string list \<Rightarrow> string list" where
  "seg_loop [] segs = segs"
| "seg_loop (tok # toks) segs =
     (if tok = ''.'' \<or> tok = [] then seg_loop toks segs
      else if tok = ''..'' then
        (if length segs > 0 then seg_loop toks (butlast segs) else seg_loop toks segs)
      else if length segs < 1024 then seg_loop toks (segs @ [tok])
      else seg_loop toks segs)"

definition strncat :: "string \<Rightarrow> string \<Rightarrow> nat \<Rightarrow> string" where
  "strncat dst src n = dst @ take n src"

fun cat_loop :: "nat \<Rightarrow> string list \<Rightarrow> string \<Rightarrow> string" where
  "cat_loop outsz [] out = out"
| "cat_loop outsz (seg # segs) out =
     (let out1 = strncat out seg (outsz - length out - 1);
          out2 = (if segs \<noteq> [] then strncat out1 ''/'' (outsz - length out1 - 1) else out1)
      in cat_loop outsz segs out2)"

definition normalize_rel_path :: "string \<Rightarrow> nat \<Rightarrow> string" where
  "normalize_rel_path inp outsz =
     (let tmp = take (PATH_MAX - 1) inp;
          segs = seg_loop (strtok_loop tmp) [];
          out = cat_loop outsz segs ''/''
      in take (outsz - 1) (if segs = [] then ''/'' else out))"

text \<open>
  \<^verbatim>\<open>join_url\<close> of spider.c; \<open>None\<close> is the answer \<^verbatim>\<open>false\<close>. \<open>buf\<close> is the text in the
  array \<^verbatim>\<open>buf\<close> after \<^verbatim>\<open>rtrim\<close>, \<open>h\<close> the offset of the pointer \<^verbatim>\<open>h\<close> in it and
  \<open>hs\<close> the string \<^verbatim>\<open>h\<close> points to.
\<close>

definition join_url_c :: "UrlParts \<Rightarrow> string \<Rightarrow> nat \<Rightarrow> string option" where
  "join_url_c base href outsz =
     (let buf = rtrim (take (PATH_MAX - 1) (cstr href));
          h = ltrim buf;
          hs = drop h buf
      in if hs = [] then None
         else if hd hs = CHR ''#'' then None
         else if starts_with_ci hs ''javascript:'' \<or> starts_with_ci hs ''mailto:'' then None
         else if starts_with_ci hs ''http://'' \<or> starts_with_ci hs ''https://'' then
           Some (take (outsz - 1) hs)
         else if take 2 hs = ''//'' then Some (take (outsz - 1) (scheme base @ '':'' @ hs))
         else if hd hs = CHR ''/'' then
           Some (take (outsz - 1) (scheme base @ ''://'' @ host base @ hs))
         else
           let dir = base_dir_from_path (path base) PATH_MAX;
               mem = snprintf_dir_h (array_of buf) PATH_MAX dir h;
               norm = normalize_rel_path (str_at mem 0 PATH_MAX) PATH_MAX
           in Some (take (outsz - 1) (scheme base @ ''://'' @ host base @ norm)))"

section \<open>Plainly written attributes\<close>

text \<open>
  \<open>occurs w s\<close>: the lower-case word \<open>w\<close> stands somewhere in \<open>s\<close>, in any letter case.
  \<open>unq\<close> is the class \<^verbatim>\<open>[^\s>]\<close> of the characters of a value without quotes.
  \<open>plain_src t v\<close>: the text \<open>t\<close> has the letters \<^verbatim>\<open>src\<close> in one place only (not
  counting the inside of the value), followed by \<^verbatim>\<open>=\<close> with optional white space
  around it and by the value \<open>v\<close>, written between double quotes, between single
  quotes, or without quotes; white space, \<^verbatim>\<open>>\<close> or the end of the text comes next.
\<close>

fun occurs :: "string \<Rightarrow> string \<Rightarrow> bool" where
  "occurs w [] = (w = [])"
| "occurs w (c # s) = (starts_with (to_lower (c # s)) w \<or> occurs w s)"

abbreviation (input) unq :: "char \<Rightarrow> bool" where
  "unq \<equiv> (\<lambda>c. \<not> isspace c \<and> c \<noteq> CHR ''>'')"

definition plain_src :: "string \<Rightarrow> string \<Rightarrow> bool" where
  "plain_src t v =
     (\<exists>pre name ws1 ws2 val post.
        t = pre @ name @ ws1 @ ''='' @ ws2 @ val @ post
        \<and> to_lower name = ''src''
        \<and> \<not> occurs ''src'' (pre @ take 2 name)
        \<and> list_all isspace ws1 \<and> list_all isspace ws2
        \<and> (post = [] \<or> isspace (hd post) \<or> hd post = CHR ''>'')
        \<and> \<not> occurs ''src'' post
        \<and> ((val = CHR 0x22 # v @ [CHR 0x22] \<and> CHR 0x22 \<notin> set v)
             \<or> (val = CHR 0x27 # v @ [CHR 0x27] \<and> CHR 0x27 \<notin> set v)
             \<or> (val = v \<and> v \<noteq> [] \<and> list_all (\<lambda>c. \<not> isspace c \<and> c \<noteq> CHR ''>'') v
                 \<and> hd v \<noteq> CHR 0x22 \<and> hd v \<noteq> CHR 0x27)))"

section \<open>The spider (spider.cpp)\<close>

record Options =
  recursive :: bool
  max_depth :: int
  out_dir :: string

text \<open>
  What the program does to the outside, in order: the lines it writes to the
  diagnostic stream and its calls of the transport.
\<close>

datatype event =
    Log_page string int
  | Http_get string
  | Log_fetch_failed
  | Http_download string string
  | Log_img string string
  | Log_img_failed string
  | Log_done nat nat

text \<open>
  The outside world. \<open>http_get_text\<close> answers the page body when the transfer
  succeeds with a 2xx status; \<open>http_download_file\<close> tells whether the file was
  written. Both may depend on everything that happened before, so they receive
  the events so far. \<open>create_directories\<close> tells whether the output directory
  could be made.
\<close>

record world =
  http_get_text :: "event list \<Rightarrow> string \<Rightarrow> string option"
  http_download_file :: "event list \<Rightarrow> string \<Rightarrow> string \<Rightarrow> bool"
  create_directories :: "string \<Rightarrow> bool"

record Spider =
  opt :: Options
  visited_pages :: "string set"
  downloaded_images :: "string set"
  trace :: "event list"

text \<open>
  \<^verbatim>\<open>opt.out_dir / filename\<close> of \<^verbatim>\<open>std::filesystem\<close>, for a file name that does not
  start with \<^verbatim>\<open>/\<close> (\<open>filename_from_url\<close> never does).
\<close>

definition path_join :: "string \<Rightarrow> string \<Rightarrow> string" where
  "path_join d f = (if d = [] \<or> last d = CHR ''/'' then d @ f else d @ ''/'' @ f)"

text \<open>The body of the image loop of \<^verbatim>\<open>Spider::crawl\<close>.\<close>

definition img_step :: "world \<Rightarrow> UrlParts \<Rightarrow> Spider \<Rightarrow> string \<Rightarrow> Spider" where
  "img_step w parts s src =
     (let imgUrl = join_url parts src in
      if imgUrl = [] then s
      else if \<not> is_image_url imgUrl then s
      else if imgUrl \<in> downloaded_images s then s
      else
        let s1 = s\<lparr>downloaded_images := insert imgUrl (downloaded_images s)\<rparr>;
            out_path = path_join (out_dir (opt s1)) (filename_from_url imgUrl);
            ok = http_download_file w (trace s1) imgUrl out_path
        in s1\<lparr>trace := trace s1 @ [Http_download imgUrl out_path,
                                      if ok then Log_img imgUrl out_path else Log_img_failed imgUrl]\<rparr>)"

text \<open>
  \<^verbatim>\<open>Spider::crawl\<close>. The recursion ends because \<open>depth_left\<close> falls by one at each
  call and no call is made at zero or below.
\<close>

function crawl :: "world \<Rightarrow> string \<Rightarrow> int \<Rightarrow> Spider \<Rightarrow> Spider" where
  "crawl w url depth_left s =
     (if url = [] then s
      else
        case parse_url url of
          None \<Rightarrow> s
        | Some parts \<Rightarrow>
            if url \<in> visited_pages s then s
            else
              let s1 = s\<lparr>visited_pages := insert url (visited_pages s),
                          trace := trace s @ [Log_page url depth_left]\<rparr>
              in
                case http_get_text w (trace s1) url of
                  None \<Rightarrow> s1\<lparr>trace := trace s1 @ [Http_get url, Log_fetch_failed]\<rparr>
                | Some html \<Rightarrow>
                    let s2 = s1\<lparr>trace := trace s1 @ [Http_get url]\<rparr>;
                        s3 = foldl (img_step w parts) s2 (extract_img_srcs html)
                    in
                      if \<not> recursive (opt s3) then s3
                      else if depth_left \<le> 0 then s3
                      else
                        foldl (\<lambda>st href.
                                 let nextUrl = join_url parts href in
                                 if nextUrl = [] then st
                                 else
                                   case parse_url nextUrl of
                                     None \<Rightarrow> st
                                   | Some nextParts \<Rightarrow>
                                       if to_lower (host nextParts) \<noteq> to_lower (host parts) then st
                                       else crawl w nextUrl (depth_left - 1) st)
                              s3 (extract_a_hrefs html))"
  by pat_completeness auto
termination
  by (relation "measure (\<lambda>(w, url, depth_left, s). nat depth_left)") auto

declare crawl.simps [simp del]

text \<open>The body of the link loop of \<^verbatim>\<open>Spider::crawl\<close>, named.\<close>

definition follow_link :: "world \<Rightarrow> UrlParts \<Rightarrow> int \<Rightarrow> Spider \<Rightarrow> string \<Rightarrow> Spider" where
  "follow_link w parts depth_left st href =
     (let nextUrl = join_url parts href in
      if nextUrl = [] then st
      else
        case parse_url nextUrl of
          None \<Rightarrow> st
        | Some nextParts \<Rightarrow>
            if to_lower (host nextParts) \<noteq> to_lower (host parts) then st
            else crawl w nextUrl (depth_left - 1) st)"

text \<open>
  Reading a trace: the URLs of the page fetches, in order; the URLs of the
  download calls; the URLs of the downloads that succeeded.
\<close>

definition fetched :: "event list \<Rightarrow> string list" where
  "fetched t = concat (map (\<lambda>e. case e of Http_get u \<Rightarrow> [u] | _ \<Rightarrow> []) t)"

definition download_calls :: "event list \<Rightarrow> string list" where
  "download_calls t = concat (map (\<lambda>e. case e of Http_download u f \<Rightarrow> [u] | _ \<Rightarrow> []) t)"

definition download_successes :: "event list \<Rightarrow> string list" where
  "download_successes t = concat (map (\<lambda>e. case e of Log_img u f \<Rightarrow> [u] | _ \<Rightarrow> []) t)"

text \<open>The URLs of the pages announced by a \<^verbatim>\<open>[PAGE]\<close> line, in order.\<close>

definition logged_pages :: "event list \<Rightarrow> string list" where
  "logged_pages t = concat (map (\<lambda>e. case e of Log_page u d \<Rightarrow> [u] | _ \<Rightarrow> []) t)"

text \<open>A URL that parses and whose host is \<open>h\<close>, letter case apart.\<close>

definition on_host :: "string \<Rightarrow> string \<Rightarrow> bool" where
  "on_host h u = (case parse_url u of None \<Rightarrow> False | Some p \<Rightarrow> to_lower (host p) = to_lower h)"

text \<open>
  Invariants of a crawl. \<open>fetch_inv\<close>: no URL was fetched twice and every fetched
  URL is in the visited set. \<open>host_inv\<close>: every page visited or fetched since the
  start is on host \<open>h\<close>. \<open>dl_inv\<close>: every image URL put into the downloaded set
  since the start has had its download call, to the file named after it.
\<close>

definition fetch_inv :: "Spider \<Rightarrow> bool" where
  "fetch_inv s = (distinct (fetched (trace s)) \<and> set (fetched (trace s)) \<subseteq> visited_pages s)"

definition host_inv :: "string \<Rightarrow> string set \<Rightarrow> string set \<Rightarrow> Spider \<Rightarrow> bool" where
  "host_inv h V0 F0 s =
     ((\<forall>u \<in> visited_pages s. u \<in> V0 \<or> on_host h u)
      \<and> (\<forall>u \<in> set (fetched (trace s)). u \<in> F0 \<or> on_host h u))"

definition dl_inv :: "Options \<Rightarrow> string set \<Rightarrow> Spider \<Rightarrow> bool" where
  "dl_inv ops D0 s =
     (opt s = ops
      \<and> (\<forall>u \<in> downloaded_images s.
            u \<in> D0 \<or> Http_download u (path_join (out_dir ops) (filename_from_url u)) \<in> set (trace s)))"

text \<open>
  \<open>count_inv\<close>: the visited set holds the announced pages and the downloaded set
  holds the URLs of the download calls, each once.
\<close>

definition count_inv :: "Spider \<Rightarrow> bool" where
  "count_inv s =
     (distinct (logged_pages (trace s)) \<and> set (logged_pages (trace s)) = visited_pages s
      \<and> distinct (download_calls (trace s)) \<and> set (download_calls (trace s)) = downloaded_images s)"

section \<open>Command line (spider.cpp)\<close>

definition is_number :: "string \<Rightarrow> bool" where
  "is_number s = (s \<noteq> [] \<and> list_all isdigit s)"

definition digit_val :: "char \<Rightarrow> int" where
  "digit_val c =
     (case map_of (zip ''0123456789'' [0, 1, 2, 3, 4, 5, 6, 7, 8, 9]) c of
        Some d \<Rightarrow> d
      | None \<Rightarrow> 0)"

text \<open>
  \<^verbatim>\<open>std::stoi\<close> on a string of digits: its decimal value, and the exception
  \<^verbatim>\<open>std::out_of_range\<close> (here \<open>None\<close>) when that is beyond \<^verbatim>\<open>INT_MAX\<close>.
\<close>

definition stoi :: "string \<Rightarrow> int option" where
  "stoi n =
     (let v = foldl (\<lambda>a c. 10 * a + digit_val c) 0 n
      in if v > 2147483647 then None else Some v)"

text \<open>
  How \<^verbatim>\<open>main\<close> can end before the crawl: \<^verbatim>\<open>return\<close> with a status, or an exception
  nobody catches.
\<close>

datatype outcome = Exit int | Uncaught_exception

text \<open>The argument loop of \<^verbatim>\<open>main\<close>, over \<^verbatim>\<open>argv[1..]\<close>.\<close>

fun parse_args :: "string list \<Rightarrow> Options \<Rightarrow> string \<Rightarrow> outcome + Options \<times> string" where
  "parse_args [] ops url = Inr (ops, url)"
| "parse_args (a # rest) ops url =
     (if a = ''-r'' then parse_args rest (ops\<lparr>recursive := True\<rparr>) url
      else if a = ''-l'' then
        (case rest of
           [] \<Rightarrow> Inl (Exit 1)
         | n # rest' \<Rightarrow>
             if \<not> is_number n then Inl (Exit 1)
             else
               (case stoi n of
                  None \<Rightarrow> Inl Uncaught_exception
                | Some v \<Rightarrow> parse_args rest' (ops\<lparr>max_depth := v\<rparr>) url))
      else if a = ''-p'' then
        (case rest of
           [] \<Rightarrow> Inl (Exit 1)
         | d # rest' \<Rightarrow> parse_args rest' (ops\<lparr>out_dir := d\<rparr>) url)
      else if a = ''-h'' \<or> a = ''--help'' then Inl (Exit 0)
      else parse_args rest ops a)"

text \<open>
  \<^verbatim>\<open>main\<close> up to the call of \<^verbatim>\<open>s.crawl(url, depth)\<close>: the options, the seed and the
  depth the crawl is started with.
\<close>

definition main_setup :: "world \<Rightarrow> string list \<Rightarrow> outcome + Options \<times> string \<times> int" where
  "main_setup w args =
     (case parse_args args \<lparr>recursive = False, max_depth = 0, out_dir = ''./data''\<rparr> [] of
        Inl e \<Rightarrow> Inl e
      | Inr (ops, url) \<Rightarrow>
          if url = [] then Inl (Exit 1)
          else
            let ops = (if recursive ops \<and> max_depth ops = 0 then ops\<lparr>max_depth := 5\<rparr> else ops)
            in
              if \<not> create_directories w (out_dir ops) then Inl (Exit 1)
              else
                (case parse_url url of
                   None \<Rightarrow> Inl (Exit 1)
                 | Some p \<Rightarrow> Inr (ops, url, if recursive ops then max_depth ops else 0)))"

text \<open>
  \<^verbatim>\<open>main\<close>: the exit status and everything written and fetched. The last event of
  a run is the summary, with the sizes of the two sets.
\<close>

definition main :: "world \<Rightarrow> string list \<Rightarrow> outcome \<times> event list" where
  "main w args =
     (case main_setup w args of
        Inl e \<Rightarrow> (e, [])
      | Inr (ops, url, depth) \<Rightarrow>
          let s = crawl w url depth
                    \<lparr>opt = ops, visited_pages = {}, downloaded_images = {}, trace = []\<rparr>
          in (Exit 0,
              trace s @ [Log_done (card (visited_pages s)) (card (downloaded_images s))]))"

section \<open>The specification's wording of path normalisation and file naming\<close>

text \<open>
  The functions of this section follow the specification's sentences, not the
  code; the theorems below compare them with the code.
\<close>

fun split_on :: "char \<Rightarrow> string \<Rightarrow> string list" where
  "split_on d [] = [[]]"
| "split_on d (c # cs) =
     (if c = d then [] # split_on d cs
      else (c # hd (split_on d cs)) # tl (split_on d cs))"

definition retain :: "string list \<Rightarrow> string \<Rightarrow> string list" where
  "retain kept seg =
     (if seg = [] \<or> seg = ''.'' then kept
      else if seg = ''..'' then (if kept \<noteq> [] then butlast kept else kept)
      else kept @ [seg])"

fun join_slash :: "string list \<Rightarrow> string" where
  "join_slash [] = []"
| "join_slash [s] = s"
| "join_slash (s # ss) = s @ ''/'' @ join_slash ss"

definition normalize_path_spec :: "string \<Rightarrow> string" where
  "normalize_path_spec p = ''/'' @ join_slash (foldl retain [] (split_on CHR ''/'' p))"

text \<open>
  Stripping a \<^verbatim>\<open>?\<close>/\<^verbatim>\<open>#\<close> suffix: what is left is the text before the first \<^verbatim>\<open>?\<close> or
  \<^verbatim>\<open>#\<close>.
\<close>

fun strip_suffix_spec :: "string \<Rightarrow> string" where
  "strip_suffix_spec [] = []"
| "strip_suffix_spec (c # cs) =
     (if c = CHR ''?'' \<or> c = CHR ''#'' then [] else c # strip_suffix_spec cs)"

text \<open>
  The base directory: the path without its query and fragment, up to and
  including the last \<^verbatim>\<open>/\<close>; \<^verbatim>\<open>/\<close> if it has none.
\<close>

definition base_dir_spec :: "string \<Rightarrow> string" where
  "base_dir_spec p =
     (let p1 = strip_suffix_spec p in
      if CHR ''/'' \<in> set p1 then rev (dropWhile (\<lambda>c. c \<noteq> CHR ''/'') (rev p1)) else ''/'')"

text \<open>
  The alphanumeric characters are the letters and the digits of ASCII. A file
  name keeps them and \<^verbatim>\<open>.\<close>, \<^verbatim>\<open>_\<close>, \<^verbatim>\<open>-\<close>; every other character becomes \<^verbatim>\<open>_\<close>.
\<close>

definition alphanumeric_spec :: "char \<Rightarrow> bool" where
  "alphanumeric_spec c =
     (c \<in> set ''abcdefghijklmnopqrstuvwxyzABCDEFGHIJKLMNOPQRSTUVWXYZ0123456789'')"

definition replace_spec :: "char \<Rightarrow> char" where
  "replace_spec c =
     (if alphanumeric_spec c \<or> c = CHR ''.'' \<or> c = CHR ''_'' \<or> c = CHR ''-'' then c
      else CHR ''_'')"

definition deriveFilename_spec :: "string \<Rightarrow> string" where
  "deriveFilename_spec url =
     (let u = strip_suffix_spec url;
          name = rev (takeWhile (\<lambda>c. c \<noteq> CHR ''/'') (rev u))
      in map replace_spec (if name = [] then ''image.bin'' else name))"


section \<open>Sample data\<close>

definition base0 :: UrlParts where
  "base0 = \<lparr>scheme = ''http'', host = ''example.com'', path = ''/a/b/index.html''\<rparr>"


definition base1 :: UrlParts where
  "base1 = \<lparr>scheme = ''https'', host = ''example.com:8080'', path = ''/a/b/index.html?v=1/2#s/t''\<rparr>"

definition html1 :: string where
  "html1 = ''<img src=\"http://cdn.y.org/a.png\"><a href=\"/p\">p</a><a href=\"http://z.com/\">z</a>''"

definition html2 :: string where
  "html2 = ''<img src=\"a.png\" data-src=\"b.png\">''"

definition html3 :: string where
  "html3 = ''<p><img src=\"a.png\" alt='b.png'><IMG  SRC = c.gif >''"

definition w1 :: world where
  "w1 = \<lparr>http_get_text = (\<lambda>t u.
            if u = ''http://x.com/'' then Some html1
            else if u = ''http://x.com/p'' then Some ''<a href=\"/\">home</a><img src=b.jpg>''
            else None),
          http_download_file = (\<lambda>t u f. u \<noteq> ''http://x.com/b.jpg''),
          create_directories = (\<lambda>d. True)\<rparr>"

definition w2 :: world where
  "w2 = \<lparr>http_get_text = (\<lambda>t u. if u = ''http://x.com/'' then Some ''<img src=\"a.png\">'' else None),
          http_download_file = (\<lambda>t u f. False),
          create_directories = (\<lambda>d. True)\<rparr>"

definition s0 :: Spider where
  "s0 = \<lparr>opt = \<lparr>recursive = True, max_depth = 5, out_dir = ''./data''\<rparr>,
         visited_pages = {}, downloaded_images = {}, trace = []\<rparr>"


section \<open>Properties of the URL resolver\<close>

subsection \<open>What a match of the URL pattern captures\<close>

lemma mem_Sym:
  "(pc', s', cs') \<in> set (bt (Sym P) (pc, s, cs))
   \<longleftrightarrow> (\<exists>c. s = c # s' \<and> P c \<and> pc' = Some c \<and> cs' = cs)"
  by (auto split: list.splits)

lemma mem_ci:
  "(pc', s', cs') \<in> set (bt (ci a) (pc, s, cs))
   \<longleftrightarrow> (\<exists>c. s = c # s' \<and> tolower c = tolower a \<and> pc' = Some c \<and> cs' = cs)"
  by (auto simp: ci_def mem_Sym)

lemma mem_Seq:
  "x \<in> set (bt (Seq r1 r2) st) \<longleftrightarrow> (\<exists>m \<in> set (bt r1 st). x \<in> set (bt r2 m))"
  by auto

lemma mem_Grp:
  "(pc', s', cs') \<in> set (bt (Grp n r) (pc, s, cs))
   \<longleftrightarrow> (\<exists>cs0. (pc', s', cs0) \<in> set (bt r (pc, s, cs))
              \<and> cs' = cs0(n \<mapsto> take (length s - length s') s))"
  by force

lemma mem_Star_Sym:
  "(pc', s', cs') \<in> set (bt (Star (Sym P)) (pc, s, cs))
   \<Longrightarrow> cs' = cs \<and> (\<exists>w. s = w @ s' \<and> list_all P w)"
proof (induction s arbitrary: pc)
  case Nil
  then show ?case by (simp add: bt.simps(5))
next
  case (Cons c t)
  show ?case
  proof (cases "P c")
    case True
    with Cons.prems have "(pc', s', cs') \<in> set (bt (Star (Sym P)) (Some c, t, cs))
                          \<or> (pc', s', cs') = (pc, c # t, cs)"
      by (subst (asm) bt.simps(5)) auto
    then show ?thesis
    proof
      assume "(pc', s', cs') \<in> set (bt (Star (Sym P)) (Some c, t, cs))"
      from Cons.IH [OF this] obtain w where "cs' = cs" "t = w @ s'" "list_all P w" by auto
      then have "c # t = (c # w) @ s' \<and> list_all P (c # w)" using True by simp
      then show ?thesis using \<open>cs' = cs\<close> by blast
    next
      assume "(pc', s', cs') = (pc, c # t, cs)"
      then show ?thesis by (intro conjI exI [of _ "[]"]) auto
    qed
  next
    case False
    with Cons.prems have "(pc', s', cs') = (pc, c # t, cs)"
      by (subst (asm) bt.simps(5)) auto
    then show ?thesis by (intro conjI exI [of _ "[]"]) auto
  qed
qed


lemma mem_Opt:
  "x \<in> set (bt (Opt r) st) \<longleftrightarrow> x \<in> set (bt r st) \<or> x = st"
  by (auto simp: Opt_def)

text \<open>The scheme part \<^verbatim>\<open>https?\<close>: the text read is \<^verbatim>\<open>http\<close> or \<^verbatim>\<open>https\<close> in some letter case.\<close>

lemma mem_scheme:
  assumes "(pc', s', cs') \<in> set (bt (seqs [lit ''http'', Opt (ci CHR ''s'')]) (pc, s, cs))"
  shows "cs' = cs \<and> (\<exists>w. s = w @ s' \<and> (to_lower w = ''http'' \<or> to_lower w = ''https''))"
proof -
  have lc: "tolower CHR ''h'' = CHR ''h''" "tolower CHR ''t'' = CHR ''t''"
    "tolower CHR ''p'' = CHR ''p''" "tolower CHR ''s'' = CHR ''s''"
    by (simp_all add: tolower_def)
  from assms have "\<exists>a b c d r. s = a # b # c # d # r
      \<and> tolower a = CHR ''h'' \<and> tolower b = CHR ''t'' \<and> tolower c = CHR ''t''
      \<and> tolower d = CHR ''p''
      \<and> (pc', s', cs') \<in> set (bt (Opt (ci CHR ''s'')) (Some d, r, cs))"
    by (simp add: seqs_def lit_def mem_Seq del: bt.simps) (auto simp: mem_ci lc)
  then obtain a b c d r where
    s: "s = a # b # c # d # r" and
    l: "tolower a = CHR ''h''" "tolower b = CHR ''t''" "tolower c = CHR ''t''" "tolower d = CHR ''p''"
    and o: "(pc', s', cs') \<in> set (bt (Opt (ci CHR ''s'')) (Some d, r, cs))"
    by blast
  from o have "(s' = r \<and> cs' = cs) \<or> (\<exists>e. r = e # s' \<and> tolower e = CHR ''s'' \<and> cs' = cs)"
    by (auto simp: mem_Opt mem_ci lc)
  then show ?thesis
  proof
    assume "s' = r \<and> cs' = cs"
    then have "s = [a, b, c, d] @ s'" "to_lower [a, b, c, d] = ''http''" "cs' = cs"
      using s l by (simp_all add: to_lower_def)
    then show ?thesis by blast
  next
    assume "\<exists>e. r = e # s' \<and> tolower e = CHR ''s'' \<and> cs' = cs"
    then obtain e where "r = e # s'" "tolower e = CHR ''s''" "cs' = cs" by auto
    then have "s = [a, b, c, d, e] @ s'" "to_lower [a, b, c, d, e] = ''https''" "cs' = cs"
      using s l by (simp_all add: to_lower_def)
    then show ?thesis by blast
  qed
qed


lemma take_consumed: "take (length (w @ s') - length s') (w @ s') = w"
  by simp

lemma mem_Plus_Sym:
  assumes "(pc', s', cs') \<in> set (bt (Plus (Sym P)) (pc, s, cs))"
  shows "cs' = cs \<and> (\<exists>c w. s = (c # w) @ s' \<and> P c \<and> list_all P w)"
proof -
  from assms obtain m where m: "m \<in> set (bt (Sym P) (pc, s, cs))"
    "(pc', s', cs') \<in> set (bt (Star (Sym P)) m)"
    unfolding Plus_def mem_Seq by blast
  obtain pc1 s1 cs1 where m1: "m = (pc1, s1, cs1)" by (cases m) auto
  from m(1) obtain c where c: "s = c # s1" "P c" "cs1 = cs" unfolding m1 mem_Sym by blast
  from mem_Star_Sym [OF m(2) [unfolded m1]] obtain w where "cs' = cs1" "s1 = w @ s'" "list_all P w"
    by blast
  with c show ?thesis by auto
qed

lemma url_re_unfold:
  "url_re =
     Seq Bol (Seq (Star (Sym isspace))
       (Seq (Grp 1 (seqs [lit ''http'', Opt (ci CHR ''s'')]))
         (Seq (Seq (ci CHR '':'') (Seq (ci CHR ''/'') (Seq (ci CHR ''/'') Eps)))
           (Seq (Grp 2 (Plus (Sym (\<lambda>c. c \<noteq> CHR ''/''))))
             (Seq (Opt (Grp 3 (Seq (Sym (\<lambda>c. c = CHR ''/'')) (Seq (Star (Sym dot)) Eps))))
               (Seq (Star (Sym isspace)) (Seq Eol Eps)))))))"
  by (simp add: url_re_def seqs_def lit_def)

lemma bt_Bol_seq: "bt (Seq Bol r) (None, s, cs) = bt r (None, s, cs)"
  by simp

lemma url_re_caps:
  assumes "(pc', s', m) \<in> set (bt url_re (None, url, Map.empty))"
  shows "\<exists>x h. m 1 = Some x \<and> (to_lower x = ''http'' \<or> to_lower x = ''https'')
           \<and> m 2 = Some h \<and> h \<noteq> [] \<and> CHR ''/'' \<notin> set h
           \<and> (m 3 = None \<or> (\<exists>p. m 3 = Some (CHR ''/'' # p)))"
proof -
  let ?sch = "seqs [lit ''http'', Opt (ci CHR ''s'')]"
  let ?sep = "Seq (ci CHR '':'') (Seq (ci CHR ''/'') (Seq (ci CHR ''/'') Eps))"
  let ?hst = "Plus (Sym (\<lambda>c. c \<noteq> CHR ''/''))"
  let ?pth = "Seq (Sym (\<lambda>c. c = CHR ''/'')) (Seq (Star (Sym dot)) Eps)"
  let ?r7 = "Seq (Star (Sym isspace)) (Seq Eol Eps)"
  let ?r6 = "Seq (Opt (Grp 3 ?pth)) ?r7"
  let ?r5 = "Seq (Grp 2 ?hst) ?r6"
  let ?r4 = "Seq ?sep ?r5"
  let ?r3 = "Seq (Grp 1 ?sch) ?r4"
  let ?r2 = "Seq (Star (Sym isspace)) ?r3"
  from assms have "(pc', s', m) \<in> set (bt ?r2 (None, url, Map.empty))"
    unfolding url_re_unfold bt_Bol_seq .
  then obtain st2 where st2: "st2 \<in> set (bt (Star (Sym isspace)) (None, url, Map.empty))"
    and a3: "(pc', s', m) \<in> set (bt ?r3 st2)"
    unfolding mem_Seq [of _ "Star (Sym isspace)"] by blast
  obtain pc2 s2 cs2 where e2: "st2 = (pc2, s2, cs2)" by (cases st2) auto
  have c2: "cs2 = Map.empty" using mem_Star_Sym [OF st2 [unfolded e2]] by simp
  from a3 obtain st3 where st3: "st3 \<in> set (bt (Grp 1 ?sch) st2)"
    and a4: "(pc', s', m) \<in> set (bt ?r4 st3)"
    unfolding mem_Seq [of _ "Grp 1 ?sch"] by blast
  obtain pc3 s3 cs3 where e3: "st3 = (pc3, s3, cs3)" by (cases st3) auto
  from st3 obtain cs0 where g1: "(pc3, s3, cs0) \<in> set (bt ?sch (pc2, s2, cs2))"
    "cs3 = cs0(1 \<mapsto> take (length s2 - length s3) s2)"
    unfolding e2 e3 mem_Grp by blast
  from mem_scheme [OF g1(1)] obtain x where x: "cs0 = cs2" "s2 = x @ s3"
    "to_lower x = ''http'' \<or> to_lower x = ''https''" by blast
  have c3: "cs3 = [1 \<mapsto> x]" using g1(2) x(1,2) c2 by simp
  from a4 obtain st4 where st4: "st4 \<in> set (bt ?sep st3)"
    and a5: "(pc', s', m) \<in> set (bt ?r5 st4)"
    unfolding mem_Seq [of _ ?sep] by blast
  obtain pc4 s4 cs4 where e4: "st4 = (pc4, s4, cs4)" by (cases st4) auto
  have c4: "cs4 = cs3" using st4 unfolding e3 e4 by (auto simp: mem_ci)
  from a5 obtain st5 where st5: "st5 \<in> set (bt (Grp 2 ?hst) st4)"
    and a6: "(pc', s', m) \<in> set (bt ?r6 st5)"
    unfolding mem_Seq [of _ "Grp 2 ?hst"] by blast
  obtain pc5 s5 cs5 where e5: "st5 = (pc5, s5, cs5)" by (cases st5) auto
  from st5 obtain cs0' where g2: "(pc5, s5, cs0') \<in> set (bt ?hst (pc4, s4, cs4))"
    "cs5 = cs0'(2 \<mapsto> take (length s4 - length s5) s4)"
    unfolding e4 e5 mem_Grp by blast
  from mem_Plus_Sym [OF g2(1)] obtain c w where h: "cs0' = cs4" "s4 = (c # w) @ s5"
    "c \<noteq> CHR ''/''" "list_all (\<lambda>c. c \<noteq> CHR ''/'') w" by blast
  have c5: "cs5 = [1 \<mapsto> x, 2 \<mapsto> c # w]" using g2(2) h(1,2) c4 c3 by simp
  have hs: "CHR ''/'' \<notin> set (c # w)" using h(3,4) by (auto simp: list_all_iff)
  from a6 obtain st6 where st6: "st6 \<in> set (bt (Opt (Grp 3 ?pth)) st5)"
    and a7: "(pc', s', m) \<in> set (bt ?r7 st6)"
    unfolding mem_Seq [of _ "Opt (Grp 3 ?pth)"] by blast
  obtain pc6 s6 cs6 where e6: "st6 = (pc6, s6, cs6)" by (cases st6) auto
  have c6: "cs6 = cs5 \<or> (\<exists>p. cs6 = cs5(3 \<mapsto> CHR ''/'' # p))"
  proof (cases "st6 = st5")
    case True
    then show ?thesis by (simp add: e5 e6)
  next
    case False
    with st6 have "(pc6, s6, cs6) \<in> set (bt (Grp 3 ?pth) (pc5, s5, cs5))"
      unfolding mem_Opt e5 e6 by blast
    then obtain cs0'' where g3: "(pc6, s6, cs0'') \<in> set (bt ?pth (pc5, s5, cs5))"
      "cs6 = cs0''(3 \<mapsto> take (length s5 - length s6) s5)"
      unfolding mem_Grp by blast
    from g3(1) obtain m' where m': "m' \<in> set (bt (Sym (\<lambda>c. c = CHR ''/'')) (pc5, s5, cs5))"
      "(pc6, s6, cs0'') \<in> set (bt (Seq (Star (Sym dot)) Eps) m')"
      unfolding mem_Seq [of _ "Sym (\<lambda>c. c = CHR ''/'')"] by blast
    obtain pcm t csm where em: "m' = (pcm, t, csm)" by (cases m') auto
    from m'(1) have t: "s5 = CHR ''/'' # t" "csm = cs5" unfolding em mem_Sym by auto
    from m'(2) obtain m'' where "m'' \<in> set (bt (Star (Sym dot)) (pcm, t, cs5))"
      "(pc6, s6, cs0'') \<in> set (bt Eps m'')"
      unfolding em t(2) mem_Seq [of _ "Star (Sym dot)"] by blast
    then have "(pc6, s6, cs0'') \<in> set (bt (Star (Sym dot)) (pcm, t, cs5))"
      by simp
    from mem_Star_Sym [OF this] obtain v where v: "cs0'' = cs5" "t = v @ s6" by blast
    have "take (length s5 - length s6) s5 = CHR ''/'' # v" using t(1) v(2) by simp
    then show ?thesis using g3(2) v(1) by auto
  qed
  from a7 obtain st7 where st7: "st7 \<in> set (bt (Star (Sym isspace)) st6)"
    and a8: "(pc', s', m) \<in> set (bt (Seq Eol Eps) st7)"
    unfolding mem_Seq [of _ "Star (Sym isspace)"] by blast
  obtain pc7 s7 cs7 where e7: "st7 = (pc7, s7, cs7)" by (cases st7) auto
  have c7: "cs7 = cs6" using mem_Star_Sym [OF st7 [unfolded e6 e7]] by simp
  have "m = cs7" using a8 unfolding e7 by (auto split: if_splits)
  with c7 c6 c5 x(3) hs show ?thesis by auto
qed

text \<open>
  The parts of a URL that parses: the scheme is \<^verbatim>\<open>http\<close> or \<^verbatim>\<open>https\<close> in lower
  case, the host is not empty and has no \<^verbatim>\<open>/\<close>, the path starts with \<^verbatim>\<open>/\<close>.
\<close>

lemma parse_url_parts:
  assumes "parse_url url = Some p"
  shows "(scheme p = ''http'' \<or> scheme p = ''https'') \<and> host p \<noteq> [] \<and> CHR ''/'' \<notin> set (host p)
         \<and> starts_with (path p) ''/''"
proof -
  from assms obtain m where m: "regex_match url_re url = Some m"
    and p: "p = \<lparr>scheme = to_lower (case m 1 of Some x \<Rightarrow> x | None \<Rightarrow> []),
                 host = (case m 2 of Some x \<Rightarrow> x | None \<Rightarrow> []),
                 path = (let p3 = (case m 3 of Some x \<Rightarrow> x | None \<Rightarrow> ''/'')
                         in if p3 = [] then ''/'' else p3)\<rparr>"
    by (auto simp: parse_url_def Let_def split: option.splits)
  from m obtain pc' s' where "(pc', s', m) \<in> set (bt url_re (None, url, Map.empty))"
  proof -
    assume r: "\<And>pc' s'. (pc', s', m) \<in> set (bt url_re (None, url, Map.empty)) \<Longrightarrow> thesis"
    from m obtain x xs where f: "filter (\<lambda>(pc, s', cs). s' = []) (bt url_re (None, url, Map.empty)) = x # xs"
      "snd (snd x) = m"
      by (auto simp: regex_match_def split: list.splits)
    have "x \<in> set (x # xs)" by simp
    then have "x \<in> set (filter (\<lambda>(pc, s', cs). s' = []) (bt url_re (None, url, Map.empty)))"
      unfolding f(1) .
    then have "x \<in> set (bt url_re (None, url, Map.empty))" by simp
    with f(2) r show thesis by (cases x) auto
  qed
  from url_re_caps [OF this] obtain x h where
    "m 1 = Some x" "to_lower x = ''http'' \<or> to_lower x = ''https''"
    "m 2 = Some h" "h \<noteq> []" "CHR ''/'' \<notin> set h"
    "m 3 = None \<or> (\<exists>q. m 3 = Some (CHR ''/'' # q))" by blast
  then show ?thesis unfolding p by (auto simp: starts_with_def Let_def)
qed

lemma starts_with_hd: "starts_with s (c # p) \<Longrightarrow> s \<noteq> [] \<and> hd s = c"
  by (cases s) (auto simp: starts_with_def)

lemma hd_to_lower: "s \<noteq> [] \<Longrightarrow> hd (to_lower s) = tolower (hd s)"
  by (cases s) (simp_all add: to_lower_def)

text \<open>
  Claim C6. For every base and every reference that, trimmed, is empty, or starts
  with \<^verbatim>\<open>#\<close>, or starts in any letter case with \<^verbatim>\<open>javascript:\<close> or \<^verbatim>\<open>mailto:\<close>,
  \<open>join_url\<close> answers the empty string, its "skip".
\<close>

theorem join_url_skip:
  assumes "trim href = [] \<or> starts_with (trim href) ''#''
           \<or> starts_with (to_lower (trim href)) ''javascript:''
           \<or> starts_with (to_lower (trim href)) ''mailto:''"
  shows "join_url base href = []"
proof -
  have "starts_with (trim href) ''#'' \<Longrightarrow> trim href \<noteq> [] \<and> hd (trim href) = CHR ''#''"
    by (rule starts_with_hd)
  with assms show ?thesis
    by (auto simp: join_url_def normalize_url_def Let_def)
qed

theorem join_url_skip_witness:
  "join_url base0 ''#frag'' = [] \<and> join_url base0 ''javascript:alert(1)'' = []
   \<and> join_url base0 ''mailto:a@b.com'' = [] \<and> join_url base0 ''  '' = []
   \<and> join_url base0 '' JavaScript:void(0)'' = []"
  using join_url_skip [of "''#frag''" base0] join_url_skip [of "''javascript:alert(1)''" base0]
    join_url_skip [of "''mailto:a@b.com''" base0] join_url_skip [of "''  ''" base0]
    join_url_skip [of "'' JavaScript:void(0)''" base0]
  by (simp add: trim_def isspace_def starts_with_def to_lower_def tolower_def)

lemma dropWhile_hd_id: "xs = [] \<or> \<not> P (hd xs) \<Longrightarrow> dropWhile P xs = xs"
  by (cases xs) auto

lemma hd_rev_dropWhile_rev:
  assumes "dropWhile P (rev t) \<noteq> []"
  shows "hd (rev (dropWhile P (rev t))) = hd t"
proof -
  have "rev t = takeWhile P (rev t) @ dropWhile P (rev t)" by simp
  then have "t = rev (dropWhile P (rev t)) @ rev (takeWhile P (rev t))"
    by (metis rev_append rev_rev_ident)
  then have "hd t = hd (rev (dropWhile P (rev t)) @ rev (takeWhile P (rev t)))" by simp
  also have "\<dots> = hd (rev (dropWhile P (rev t)))"
    using assms by (intro hd_append2) (metis rev_is_Nil_conv)
  finally show ?thesis by (rule sym)
qed

lemma trim_trim: "trim (trim s) = trim s"
proof -
  let ?t = "dropWhile isspace s"
  let ?u = "rev (dropWhile isspace (rev ?t))"
  have "?u = [] \<or> \<not> isspace (hd ?u)"
  proof (cases "dropWhile isspace (rev ?t) = []")
    case True then show ?thesis by simp
  next
    case False
    then have "?t \<noteq> []" by (metis dropWhile.simps(1) rev.simps(1))
    then have "\<not> isspace (hd ?t)" by (rule hd_dropWhile)
    with False show ?thesis by (simp add: hd_rev_dropWhile_rev)
  qed
  then have "dropWhile isspace ?u = ?u" by (rule dropWhile_hd_id)
  then show ?thesis by (simp add: trim_def)
qed

lemma absolute_not_skipped:
  assumes "starts_with (to_lower h) ''http://'' \<or> starts_with (to_lower h) ''https://''"
  shows "h \<noteq> [] \<and> hd h \<noteq> CHR ''#'' \<and> \<not> starts_with (to_lower h) ''javascript:''
         \<and> \<not> starts_with (to_lower h) ''mailto:''"
proof -
  from assms have l: "to_lower h \<noteq> [] \<and> hd (to_lower h) = CHR ''h''"
    by (auto dest: starts_with_hd)
  then have ne: "h \<noteq> []" by (auto simp: to_lower_def)
  with l have "tolower (hd h) = CHR ''h''" by (simp add: hd_to_lower)
  then have "hd h \<noteq> CHR ''#''" by (auto simp: tolower_def)
  moreover from l have "\<not> starts_with (to_lower h) ''javascript:''" "\<not> starts_with (to_lower h) ''mailto:''"
    by (auto dest: starts_with_hd)
  ultimately show ?thesis using ne by simp
qed

text \<open>
  Claim C1, as the code has it. For every base and every reference whose trimmed
  text starts, in any letter case, with \<^verbatim>\<open>http://\<close> or \<^verbatim>\<open>https://\<close>, \<open>join_url\<close>
  returns the trimmed reference as it is written: nothing is rewritten, the
  letter case of the scheme included. Resolving the result again, against any
  base, returns it unchanged. The scheme is in lower case only in the parts
  that \<open>parse_url\<close> makes of the result, when it parses.
\<close>

theorem join_url_absolute:
  assumes "starts_with (to_lower (trim href)) ''http://''
           \<or> starts_with (to_lower (trim href)) ''https://''"
  shows "join_url base href = trim href
         \<and> join_url base' (join_url base href) = join_url base href
         \<and> (\<forall>p. parse_url (join_url base href) = Some p
                \<longrightarrow> scheme p = ''http'' \<or> scheme p = ''https'')"
proof -
  have 1: "join_url b x = trim x"
    if "starts_with (to_lower (trim x)) ''http://'' \<or> starts_with (to_lower (trim x)) ''https://''"
    for b x
    using absolute_not_skipped [OF that] that
    by (auto simp: join_url_def normalize_url_def Let_def)
  have "join_url base href = trim href" using assms by (rule 1)
  moreover have "join_url base' (trim href) = trim (trim href)"
    using assms by (intro 1) (simp add: trim_trim)
  moreover have "scheme p = ''http'' \<or> scheme p = ''https''"
    if "parse_url (join_url base href) = Some p" for p
    using parse_url_parts [OF that] by simp
  ultimately show ?thesis by (simp add: trim_trim)
qed

theorem join_url_absolute_witness:
  "join_url base0 '' HTTP://x.com/a  '' = ''HTTP://x.com/a''
   \<and> join_url base0 ''http://x.com/a'' = ''http://x.com/a''
   \<and> parse_url (join_url base0 '' HTTP://x.com/a  '')
       = Some \<lparr>scheme = ''http'', host = ''x.com'', path = ''/a''\<rparr>"
proof -
  have p: "parse_url ''HTTP://x.com/a'' = Some \<lparr>scheme = ''http'', host = ''x.com'', path = ''/a''\<rparr>"
    by code_simp
  show ?thesis
    using join_url_absolute [of "'' HTTP://x.com/a  ''" base0 base0]
      join_url_absolute [of "''http://x.com/a''" base0 base0] p
    by (simp add: trim_def isspace_def starts_with_def to_lower_def tolower_def)
qed

text \<open>
  The scheme is not lower-cased: \<^verbatim>\<open>HTTP://x.com/a\<close> starts with \<^verbatim>\<open>http://\<close> in the
  case-insensitive sense and comes back with its upper-case scheme.
\<close>

theorem join_url_absolute_counterexample:
  "starts_with (to_lower ''HTTP://x.com/a'') ''http://''
   \<and> join_url base0 ''HTTP://x.com/a'' = ''HTTP://x.com/a''
   \<and> join_url base0 ''HTTP://x.com/a'' \<noteq> ''http://x.com/a''"
  by (simp add: join_url_def normalize_url_def trim_def isspace_def starts_with_def
      to_lower_def tolower_def)

subsection \<open>The relative branch of spider.cpp\<close>

lemma strip_suffix_spec_eq: "strip_suffix_spec s = strip_qf s"
  by (induction s) (simp_all add: strip_qf_def)

lemma split_on_ne: "split_on d s \<noteq> []"
  by (cases s) auto

lemma split_on_append:
  "d \<notin> set tmp \<Longrightarrow> split_on d (tmp @ cs) = (tmp @ hd (split_on d cs)) # tl (split_on d cs)"
  by (induction tmp) (auto simp: split_on_ne)

lemma split_on_plain: "d \<notin> set tmp \<Longrightarrow> split_on d tmp = [tmp]"
  by (induction tmp) auto

lemma split_loop_spec:
  "CHR ''/'' \<notin> set tmp \<Longrightarrow>
   split_loop cs tmp parts = parts @ filter (\<lambda>s. s \<noteq> []) (split_on CHR ''/'' (tmp @ cs))"
proof (induction cs arbitrary: tmp parts)
  case Nil
  then show ?case by (simp add: split_on_plain)
next
  case (Cons c cs)
  show ?case
  proof (cases "c = CHR ''/''")
    case True
    have "split_on CHR ''/'' (tmp @ c # cs) = tmp # split_on CHR ''/'' cs"
      using Cons.prems True by (simp add: split_on_append)
    moreover have "split_loop cs [] ps = ps @ filter (\<lambda>s. s \<noteq> []) (split_on CHR ''/'' cs)" for ps
      using Cons.IH [of "[]" ps] by simp
    ultimately show ?thesis using True Cons.prems by simp
  next
    case False
    then have "CHR ''/'' \<notin> set (tmp @ [c])" using Cons.prems by simp
    from Cons.IH [OF this, of parts] False show ?thesis by simp
  qed
qed

lemma norm_loop_foldl: "norm_loop segs norm = foldl retain norm segs"
  by (induction segs arbitrary: norm) (simp_all add: retain_def)

lemma foldl_retain_filter:
  "foldl retain kept (filter (\<lambda>s. s \<noteq> []) segs) = foldl retain kept segs"
  by (induction segs arbitrary: kept) (simp_all add: retain_def)

lemma out_loop_join: "out_loop norm out = out @ join_slash norm"
  by (induction norm arbitrary: out rule: join_slash.induct) simp_all

lemma relative_path_spec:
  "out_loop (norm_loop (split_loop p [] []) []) ''/'' = normalize_path_spec p"
  using split_loop_spec [of "[]" p "[]"]
  by (simp add: normalize_path_spec_def out_loop_join norm_loop_foldl foldl_retain_filter)

lemma url_base_dir_spec:
  assumes "starts_with (path base) ''/''"
  shows "url_base_dir base = base_dir_spec (path base)"
proof -
  from assms obtain r where p: "path base = CHR ''/'' # r"
    by (cases "path base") (auto simp: starts_with_def)
  then have s: "strip_qf (path base) = CHR ''/'' # strip_qf r"
    by (simp add: strip_qf_def)
  show ?thesis
  proof (cases "last (strip_qf (path base)) = CHR ''/''")
    case True
    then have "dropWhile (\<lambda>c. c \<noteq> CHR ''/'') (rev (strip_qf (path base))) = rev (strip_qf (path base))"
      using s by (intro dropWhile_hd_id) (cases "strip_qf r = []"; simp add: hd_append hd_rev)
    then show ?thesis using True s p
      by (simp add: url_base_dir_def base_dir_spec_def strip_suffix_spec_eq Let_def)
  next
    case False
    then show ?thesis using s p
      by (simp add: url_base_dir_def base_dir_spec_def strip_suffix_spec_eq Let_def)
  qed
qed

text \<open>
  In spider.cpp, for a base whose path starts with \<^verbatim>\<open>/\<close> and a relative reference (after
  trimming: not empty, not starting with \<^verbatim>\<open>#\<close>, \<^verbatim>\<open>javascript:\<close>, \<^verbatim>\<open>mailto:\<close>,
  \<^verbatim>\<open>http://\<close>, \<^verbatim>\<open>https://\<close> or \<^verbatim>\<open>/\<close>), \<open>join_url\<close> is scheme, \<^verbatim>\<open>://\<close>, host and
  the normalised concatenation of the base directory and the reference, where
  normalising is the specification's: split at \<^verbatim>\<open>/\<close>, drop empty and \<^verbatim>\<open>.\<close> segments,
  pop one retained segment for each \<^verbatim>\<open>..\<close> (nothing to pop: no effect), join
  with \<^verbatim>\<open>/\<close> behind a leading \<^verbatim>\<open>/\<close>. No retained segment gives the path \<^verbatim>\<open>/\<close>.
\<close>

theorem join_url_relative:
  assumes "starts_with (path base) ''/''"
    and "trim href \<noteq> []"
    and "\<not> starts_with (trim href) ''#''"
    and "\<not> starts_with (to_lower (trim href)) ''javascript:''"
    and "\<not> starts_with (to_lower (trim href)) ''mailto:''"
    and "\<not> starts_with (to_lower (trim href)) ''http://''"
    and "\<not> starts_with (to_lower (trim href)) ''https://''"
    and "\<not> starts_with (trim href) ''/''"
  shows "join_url base href =
           scheme base @ ''://'' @ host base
           @ normalize_path_spec (base_dir_spec (path base) @ trim href)"
proof -
  have a: "hd (trim href) \<noteq> CHR ''#''"
    using assms(2,3) by (cases "trim href") (auto simp: starts_with_def)
  have b: "\<not> starts_with (trim href) ''//''"
    using assms(2,8) by (cases "trim href") (auto simp: starts_with_def)
  show ?thesis
    using assms a b
    by (simp add: join_url_def normalize_url_def Let_def relative_path_spec url_base_dir_spec)
qed

text \<open>
  Two runs of it: the base \<^verbatim>\<open>http://example.com/a/b/index.html\<close>, and a base
  whose path has a query and a fragment with \<^verbatim>\<open>/\<close> in them.
\<close>

lemma join_url_relative_examples:
  "join_url base0 ''../c.png'' = ''http://example.com/a/c.png''
   \<and> join_url base0 ''../../../x/..'' = ''http://example.com/''
   \<and> join_url base1 '' ./d//e/../f.gif?q#r '' = ''https://example.com:8080/a/b/d/f.gif?q#r''"
proof -
  have p: "starts_with (path base0) ''/''" "starts_with (path base1) ''/''" by code_simp+
  have h1: "trim ''../c.png'' \<noteq> []" "\<not> starts_with (trim ''../c.png'') ''#''"
    "\<not> starts_with (to_lower (trim ''../c.png'')) ''javascript:''"
    "\<not> starts_with (to_lower (trim ''../c.png'')) ''mailto:''"
    "\<not> starts_with (to_lower (trim ''../c.png'')) ''http://''"
    "\<not> starts_with (to_lower (trim ''../c.png'')) ''https://''"
    "\<not> starts_with (trim ''../c.png'') ''/''"
    by code_simp+
  have h2: "trim ''../../../x/..'' \<noteq> []" "\<not> starts_with (trim ''../../../x/..'') ''#''"
    "\<not> starts_with (to_lower (trim ''../../../x/..'')) ''javascript:''"
    "\<not> starts_with (to_lower (trim ''../../../x/..'')) ''mailto:''"
    "\<not> starts_with (to_lower (trim ''../../../x/..'')) ''http://''"
    "\<not> starts_with (to_lower (trim ''../../../x/..'')) ''https://''"
    "\<not> starts_with (trim ''../../../x/..'') ''/''"
    by code_simp+
  have h3: "trim '' ./d//e/../f.gif?q#r '' \<noteq> []" "\<not> starts_with (trim '' ./d//e/../f.gif?q#r '') ''#''"
    "\<not> starts_with (to_lower (trim '' ./d//e/../f.gif?q#r '')) ''javascript:''"
    "\<not> starts_with (to_lower (trim '' ./d//e/../f.gif?q#r '')) ''mailto:''"
    "\<not> starts_with (to_lower (trim '' ./d//e/../f.gif?q#r '')) ''http://''"
    "\<not> starts_with (to_lower (trim '' ./d//e/../f.gif?q#r '')) ''https://''"
    "\<not> starts_with (trim '' ./d//e/../f.gif?q#r '') ''/''"
    by code_simp+
  have r1: "scheme base0 @ ''://'' @ host base0
              @ normalize_path_spec (base_dir_spec (path base0) @ trim ''../c.png'')
            = ''http://example.com/a/c.png''"
    by code_simp
  have r2: "scheme base0 @ ''://'' @ host base0
              @ normalize_path_spec (base_dir_spec (path base0) @ trim ''../../../x/..'')
            = ''http://example.com/''"
    by code_simp
  have r3: "scheme base1 @ ''://'' @ host base1
              @ normalize_path_spec (base_dir_spec (path base1) @ trim '' ./d//e/../f.gif?q#r '')
            = ''https://example.com:8080/a/b/d/f.gif?q#r''"
    by code_simp
  show ?thesis
    using join_url_relative [OF p(1) h1] join_url_relative [OF p(1) h2]
      join_url_relative [OF p(2) h3]
    by (simp only: r1 r2 r3)
qed

subsection \<open>The relative branch of spider.c\<close>

text \<open>
  \<^verbatim>\<open>normalize_rel_path\<close> alone does what is asked of it on the path \<^verbatim>\<open>/a/b/../c.png\<close>
  that the base directory and the reference make.
\<close>

lemma normalize_rel_path_example:
  "normalize_rel_path ''/a/b/../c.png'' PATH_MAX = ''/a/c.png''"
  by code_simp

text \<open>
  What reaches it is another path. The directory \<^verbatim>\<open>/a/b/\<close> is written over the
  first five bytes of \<^verbatim>\<open>../c.png\<close> before the reference is read from the same
  array.
\<close>

lemma snprintf_dir_h_example:
  "base_dir_from_path (path base0) PATH_MAX = ''/a/b/''
   \<and> ltrim (rtrim ''../c.png'') = 0
   \<and> str_at (snprintf_dir_h (array_of ''../c.png'') PATH_MAX ''/a/b/'' 0) 0 PATH_MAX
       = ''/a/b//a/b//a/''"
  by code_simp

text \<open>A page at the root of its host and a plain file name.\<close>

lemma join_url_c_root_example:
  "join_url_c \<lparr>scheme = ''http'', host = ''example.com'', path = ''/''\<rparr> ''c.png'' PATH_MAX
     = Some ''http://example.com/''"
  by code_simp

text \<open>
  Claim C5 in spider.c, on the claim's own example: the base
  \<^verbatim>\<open>http://example.com/a/b/index.html\<close> and the reference \<^verbatim>\<open>../c.png\<close>. The relative
  branch of \<^verbatim>\<open>join_url\<close> calls \<^verbatim>\<open>snprintf(buf, sizeof(buf), "%s%s", dir, h)\<close> while
  \<^verbatim>\<open>h\<close> points into \<^verbatim>\<open>buf\<close>, so the path that is normalised is \<^verbatim>\<open>/a/b//a/b//a/\<close> and
  the answer is \<^verbatim>\<open>http://example.com/a/b/a/b/a\<close>. The answer of spider.cpp is
  \<^verbatim>\<open>http://example.com/a/c.png\<close>, the one the claim gives.
\<close>

theorem join_url_c_relative_example:
  "join_url_c base0 ''../c.png'' PATH_MAX = Some ''http://example.com/a/b/a/b/a''
   \<and> join_url base0 ''../c.png'' = ''http://example.com/a/c.png''"
  by code_simp


section \<open>Properties of the file namer\<close>

lemma after_last:
  assumes "c \<in> set u"
  shows "drop (Suc (length u - Suc (length (takeWhile (\<lambda>x. x \<noteq> c) (rev u))))) u
         = rev (takeWhile (\<lambda>x. x \<noteq> c) (rev u))"
proof -
  let ?k = "length (takeWhile (\<lambda>x. x \<noteq> c) (rev u))"
  have "?k \<noteq> length (rev u)"
  proof
    assume "?k = length (rev u)"
    then have "takeWhile (\<lambda>x. x \<noteq> c) (rev u) = rev u"
      by (metis takeWhile_eq_take take_all order_refl)
    then have "\<forall>x \<in> set (rev u). x \<noteq> c" by (simp add: takeWhile_eq_all_conv)
    with assms show False by auto
  qed
  moreover have "?k \<le> length (rev u)" by (rule length_takeWhile_le)
  ultimately have k: "?k < length u" by simp
  then have e1: "Suc (length u - Suc ?k) = length u - ?k" by arith
  have e2: "drop (length u - ?k) u = rev (take ?k (rev u))"
    by (simp only: take_rev rev_rev_ident length_rev)
  have e3: "take ?k (rev u) = takeWhile (\<lambda>x. x \<noteq> c) (rev u)"
    by (rule takeWhile_eq_take [symmetric])
  have "drop (Suc (length u - Suc ?k)) u = drop (length u - ?k) u" by (simp only: e1)
  also have "\<dots> = rev (take ?k (rev u))" by (rule e2)
  also have "\<dots> = rev (takeWhile (\<lambda>x. x \<noteq> c) (rev u))" by (simp only: e3)
  finally show ?thesis .
qed

lemma safe_image_bin: "map safe_char ''image.bin'' = ''image.bin''"
  by (simp add: safe_char_def isalnum_def isdigit_def isupper_def islower_def)

lemma replace_spec_eq: "replace_spec = safe_char"
proof
  fix c show "replace_spec c = safe_char c"
    by (auto simp: replace_spec_def alphanumeric_spec_def safe_char_def isalnum_def
        isdigit_def isupper_def islower_def)
qed

lemma deriveFilename_spec_code:
  "deriveFilename_spec url =
     (let u = strip_qf url;
          name = rev (takeWhile (\<lambda>c. c \<noteq> CHR ''/'') (rev u))
      in map safe_char (if name = [] then ''image.bin'' else name))"
  by (simp only: deriveFilename_spec_def strip_suffix_spec_eq replace_spec_eq)

text \<open>
  Claim C8. For every URL with a \<^verbatim>\<open>/\<close> before its first \<^verbatim>\<open>?\<close> or \<^verbatim>\<open>#\<close> (every
  absolute URL has one), \<open>filename_from_url\<close> is the specification's
  \<open>deriveFilename\<close>: cut the \<^verbatim>\<open>?\<close>/\<^verbatim>\<open>#\<close> suffix, take the text after the last \<^verbatim>\<open>/\<close>,
  use \<^verbatim>\<open>image.bin\<close> when it is empty, replace every character that is not
  alphanumeric, \<^verbatim>\<open>.\<close>, \<^verbatim>\<open>_\<close> or \<^verbatim>\<open>-\<close> by \<^verbatim>\<open>_\<close>. A string with no \<^verbatim>\<open>/\<close> there has
  no text after a \<^verbatim>\<open>/\<close> and gets \<^verbatim>\<open>image.bin\<close>.
\<close>

theorem filename_from_url_spec:
  "(CHR ''/'' \<in> set (strip_suffix_spec url) \<longrightarrow> filename_from_url url = deriveFilename_spec url)
   \<and> (CHR ''/'' \<notin> set (strip_suffix_spec url) \<longrightarrow> filename_from_url url = ''image.bin'')"
proof (intro conjI impI)
  assume "CHR ''/'' \<in> set (strip_suffix_spec url)"
  then have sl: "CHR ''/'' \<in> set (strip_qf url)" by (simp add: strip_suffix_spec_eq)
  let ?u = "strip_qf url"
  let ?k = "length (takeWhile (\<lambda>x. x \<noteq> CHR ''/'') (rev ?u))"
  let ?name = "rev (takeWhile (\<lambda>x. x \<noteq> CHR ''/'') (rev ?u))"
  have d: "drop (Suc (length ?u - Suc ?k)) ?u = ?name" using sl by (rule after_last)
  show "filename_from_url url = deriveFilename_spec url"
  proof (cases "Suc (length ?u - Suc ?k) \<ge> length ?u")
    case True
    then have "?name = []" using d by (metis drop_all)
    then show ?thesis using True sl
      by (simp add: filename_from_url_def deriveFilename_spec_code find_last_of_def Let_def
          safe_char_def isalnum_def isdigit_def isupper_def islower_def)
  next
    case False
    then show ?thesis using sl d
      by (simp add: filename_from_url_def deriveFilename_spec_code find_last_of_def Let_def)
  qed
next
  assume "CHR ''/'' \<notin> set (strip_suffix_spec url)"
  then have "CHR ''/'' \<notin> set (strip_qf url)" by (simp add: strip_suffix_spec_eq)
  then show "filename_from_url url = ''image.bin''"
    by (simp add: filename_from_url_def find_last_of_def)
qed

theorem filename_from_url_spec_witness:
  "filename_from_url ''http://x.com/a/b/pic name!.png?x=1'' = ''pic_name_.png''
   \<and> filename_from_url ''http://x.com/i/Az09-_.~@$%&+,;=()[]{}|^*<>:.Jpg#top?x=/y'' = ''Az09-_._____________________.Jpg''
   \<and> filename_from_url ''http://x.com/a/'' = ''image.bin''
   \<and> filename_from_url ''http://x.com/a/#b/c.png'' = ''image.bin''
   \<and> filename_from_url ''a.png?b/c'' = ''image.bin''"
proof -
  let ?u1 = "''http://x.com/a/b/pic name!.png?x=1''"
  let ?u2 = "''http://x.com/i/Az09-_.~@$%&+,;=()[]{}|^*<>:.Jpg#top?x=/y''"
  let ?u3 = "''http://x.com/a/''"
  let ?u4 = "''http://x.com/a/#b/c.png''"
  let ?u5 = "''a.png?b/c''"
  have h: "CHR ''/'' \<in> set (strip_suffix_spec ?u1)" "CHR ''/'' \<in> set (strip_suffix_spec ?u2)"
    "CHR ''/'' \<in> set (strip_suffix_spec ?u3)" "CHR ''/'' \<in> set (strip_suffix_spec ?u4)"
    "CHR ''/'' \<notin> set (strip_suffix_spec ?u5)"
    by code_simp+
  have d: "deriveFilename_spec ?u1 = ''pic_name_.png''"
    "deriveFilename_spec ?u2 = ''Az09-_._____________________.Jpg''"
    "deriveFilename_spec ?u3 = ''image.bin''"
    "deriveFilename_spec ?u4 = ''image.bin''"
    by code_simp+
  have "filename_from_url ?u1 = deriveFilename_spec ?u1"
    by (rule mp [OF conjunct1 [OF filename_from_url_spec] h(1)])
  moreover have "filename_from_url ?u2 = deriveFilename_spec ?u2"
    by (rule mp [OF conjunct1 [OF filename_from_url_spec] h(2)])
  moreover have "filename_from_url ?u3 = deriveFilename_spec ?u3"
    by (rule mp [OF conjunct1 [OF filename_from_url_spec] h(3)])
  moreover have "filename_from_url ?u4 = deriveFilename_spec ?u4"
    by (rule mp [OF conjunct1 [OF filename_from_url_spec] h(4)])
  moreover have "filename_from_url ?u5 = ''image.bin''"
    by (rule mp [OF conjunct2 [OF filename_from_url_spec] h(5)])
  ultimately show ?thesis by (simp only: d simp_thms)
qed


section \<open>Properties of the crawl\<close>

lemma crawl_unfold:
  "crawl w url depth_left s =
     (if url = [] then s
      else
        case parse_url url of
          None \<Rightarrow> s
        | Some parts \<Rightarrow>
            if url \<in> visited_pages s then s
            else
              let s1 = s\<lparr>visited_pages := insert url (visited_pages s),
                          trace := trace s @ [Log_page url depth_left]\<rparr>
              in
                case http_get_text w (trace s1) url of
                  None \<Rightarrow> s1\<lparr>trace := trace s1 @ [Http_get url, Log_fetch_failed]\<rparr>
                | Some html \<Rightarrow>
                    let s2 = s1\<lparr>trace := trace s1 @ [Http_get url]\<rparr>;
                        s3 = foldl (img_step w parts) s2 (extract_img_srcs html)
                    in
                      if \<not> recursive (opt s3) then s3
                      else if depth_left \<le> 0 then s3
                      else foldl (follow_link w parts depth_left) s3 (extract_a_hrefs html))"
  unfolding follow_link_def [abs_def] by (subst crawl.simps) (rule refl)

text \<open>A property kept by every step of a loop is kept by the loop.\<close>

lemma foldl_invariant:
  assumes "P s" and "\<And>st x. x \<in> set xs \<Longrightarrow> P st \<Longrightarrow> P (f st x)"
  shows "P (foldl f s xs)"
  using assms by (induction xs arbitrary: s) auto

lemma img_step_visited: "visited_pages (img_step w parts s src) = visited_pages s"
  by (simp add: img_step_def Let_def)

lemma img_step_opt: "opt (img_step w parts s src) = opt s"
  by (simp add: img_step_def Let_def)

lemma img_step_fetched: "fetched (trace (img_step w parts s src)) = fetched (trace s)"
  by (simp add: img_step_def Let_def fetched_def)

text \<open>
  A general preservation rule for \<open>crawl\<close>: a property of the state that the
  page step and the image step keep is kept by the whole crawl.
\<close>

lemma crawl_invariant:
  assumes init: "P s"
    and q: "Q url"
    and img: "\<And>st parts src. P st \<Longrightarrow> P (img_step w parts st src)"
    and page: "\<And>st u d. P st \<Longrightarrow> u \<noteq> [] \<Longrightarrow> u \<notin> visited_pages st \<Longrightarrow> Q u \<Longrightarrow>
                 P (st\<lparr>visited_pages := insert u (visited_pages st),
                       trace := trace st @ [Log_page u d, Http_get u]\<rparr>)"
    and fail: "\<And>st. P st \<Longrightarrow> P (st\<lparr>trace := trace st @ [Log_fetch_failed]\<rparr>)"
    and qstep: "\<And>u parts href np. Q u \<Longrightarrow> parse_url u = Some parts \<Longrightarrow>
                 parse_url (join_url parts href) = Some np \<Longrightarrow>
                 to_lower (host np) = to_lower (host parts) \<Longrightarrow> Q (join_url parts href)"
  shows "P (crawl w url depth_left s)"
  using init q img
proof (induction w url depth_left s rule: crawl.induct)
  case (1 w url depth_left s)
  note Ps = "1.prems"(1) and Qurl = "1.prems"(2) and imgw = "1.prems"(3)
  show ?case
  proof (cases "url = [] \<or> parse_url url = None \<or> url \<in> visited_pages s")
    case True
    then show ?thesis using Ps by (subst crawl_unfold) (auto split: option.splits)
  next
    case False
    then obtain parts where p: "url \<noteq> []" "parse_url url = Some parts" "url \<notin> visited_pages s"
      by auto
    define s1 where "s1 = s\<lparr>visited_pages := insert url (visited_pages s),
                          trace := trace s @ [Log_page url depth_left]\<rparr>"
    have "P (s\<lparr>visited_pages := insert url (visited_pages s),
               trace := trace s @ [Log_page url depth_left, Http_get url]\<rparr>)"
      using Ps p(1) p(3) Qurl by (rule page)
    then have P2: "P (s1\<lparr>trace := trace s1 @ [Http_get url]\<rparr>)" by (simp add: s1_def)
    show ?thesis
    proof (cases "http_get_text w (trace s1) url")
      case None
      from fail [OF P2] have "P (s1\<lparr>trace := trace s1 @ [Http_get url, Log_fetch_failed]\<rparr>)"
        by simp
      then show ?thesis using p None by (subst crawl_unfold) (simp add: s1_def Let_def)
    next
      case (Some html)
      define s2 where "s2 = s1\<lparr>trace := trace s1 @ [Http_get url]\<rparr>"
      define s3 where "s3 = foldl (img_step w parts) s2 (extract_img_srcs html)"
      have P3: "P s3" unfolding s3_def s2_def using P2
      proof (rule foldl_invariant)
        fix st x assume "P st"
        then show "P (img_step w parts st x)" by (rule imgw)
      qed
      have c: "crawl w url depth_left s =
                (if \<not> recursive (opt s3) then s3 else if depth_left \<le> 0 then s3
                 else foldl (follow_link w parts depth_left) s3 (extract_a_hrefs html))"
        using p Some by (subst crawl_unfold) (simp add: s1_def s2_def s3_def Let_def)
      show ?thesis
      proof (cases "\<not> recursive (opt s3) \<or> depth_left \<le> 0")
        case True
        then show ?thesis using c P3 by auto
      next
        case False
        then have rec: "\<not> \<not> recursive (opt s3)" and dep: "\<not> depth_left \<le> 0" by auto
        have "P (foldl (follow_link w parts depth_left) s3 (extract_a_hrefs html))"
          using P3
        proof (rule foldl_invariant)
          fix st href
          assume h: "href \<in> set (extract_a_hrefs html)" and Pst: "P st"
          show "P (follow_link w parts depth_left st href)"
          proof (cases "join_url parts href = [] \<or> parse_url (join_url parts href) = None
                        \<or> to_lower (host (the (parse_url (join_url parts href)))) \<noteq> to_lower (host parts)")
            case True
            then show ?thesis using Pst by (auto simp: follow_link_def Let_def split: option.splits)
          next
            case False
            then obtain np where n: "join_url parts href \<noteq> []"
              "parse_url (join_url parts href) = Some np"
              "to_lower (host np) = to_lower (host parts)" by auto
            have hq: "\<not> to_lower (host np) \<noteq> to_lower (host parts)" using n(3) by simp
            have Qn: "Q (join_url parts href)" using Qurl p(2) n(2,3) by (rule qstep)
            have "P (crawl w (join_url parts href) (depth_left - 1) st)"
              by (rule "1.IH" [OF p(1) p(2) p(3) refl Some [unfolded s1_def] refl refl
                    rec [unfolded s3_def s2_def s1_def] dep h refl n(1) n(2) hq Pst Qn imgw])
            then show ?thesis using n by (simp add: follow_link_def Let_def)
          qed
        qed
        then show ?thesis using c False by auto
      qed
    qed
  qed
qed


subsection \<open>Visited-set uniqueness\<close>

lemma fetched_append: "fetched (t @ t') = fetched t @ fetched t'"
  by (simp add: fetched_def)

lemma crawl_fetch_inv:
  assumes "fetch_inv s"
  shows "fetch_inv (crawl w url depth_left s)"
  using assms
proof (rule crawl_invariant [where Q = "\<lambda>u. True"])
  fix st parts src assume "fetch_inv st"
  then show "fetch_inv (img_step w parts st src)"
    by (simp add: fetch_inv_def img_step_fetched img_step_visited)
next
  fix st :: Spider and u d
  assume "fetch_inv st" "u \<notin> visited_pages st"
  then show "fetch_inv (st\<lparr>visited_pages := insert u (visited_pages st),
                         trace := trace st @ [Log_page u d, Http_get u]\<rparr>)"
    by (auto simp: fetch_inv_def fetched_append) (auto simp: fetched_def)
next
  fix st assume "fetch_inv st"
  then show "fetch_inv (st\<lparr>trace := trace st @ [Log_fetch_failed]\<rparr>)"
    by (simp add: fetch_inv_def fetched_append) (simp add: fetched_def)
qed simp_all

lemma crawl_visited_again: "url \<in> visited_pages s \<Longrightarrow> crawl w url depth_left s = s"
  by (subst crawl_unfold) (simp split: option.splits)

text \<open>
  Claim C3. A URL that is already in \<open>visited_pages\<close> is not fetched again: the
  call returns the state as it was. From a state in which no URL was fetched
  twice and every fetched URL is in \<open>visited_pages\<close>, a crawl ends in such a state:
  the URL enters the set before its fetch, so no URL appears twice among the
  fetch calls. For a whole run of the program, from any command line and in any
  world, the fetch calls are pairwise different.
\<close>

theorem visited_uniqueness:
  "(url \<in> visited_pages s \<longrightarrow> crawl w url depth_left s = s)
   \<and> (distinct (fetched (trace s)) \<and> set (fetched (trace s)) \<subseteq> visited_pages s \<longrightarrow>
        distinct (fetched (trace (crawl w url depth_left s)))
        \<and> set (fetched (trace (crawl w url depth_left s)))
            \<subseteq> visited_pages (crawl w url depth_left s))
   \<and> distinct (fetched (snd (main w args)))"
proof (intro conjI impI)
  assume "url \<in> visited_pages s"
  then show "crawl w url depth_left s = s" by (rule crawl_visited_again)
next
  assume "distinct (fetched (trace s)) \<and> set (fetched (trace s)) \<subseteq> visited_pages s"
  then have "fetch_inv (crawl w url depth_left s)"
    by (intro crawl_fetch_inv) (simp add: fetch_inv_def)
  then show "distinct (fetched (trace (crawl w url depth_left s)))"
    and "set (fetched (trace (crawl w url depth_left s)))
            \<subseteq> visited_pages (crawl w url depth_left s)"
    by (simp_all add: fetch_inv_def)
next
  show "distinct (fetched (snd (main w args)))"
  proof (cases "main_setup w args")
    case (Inl e)
    then show ?thesis by (simp add: main_def fetched_def)
  next
    case (Inr r)
    obtain ops url depth where r: "r = (ops, url, depth)" by (cases r) auto
    let ?s0 = "\<lparr>opt = ops, visited_pages = {}, downloaded_images = {}, trace = []\<rparr>"
    have "fetch_inv ?s0" by (simp add: fetch_inv_def fetched_def)
    then have "fetch_inv (crawl w url depth ?s0)" by (rule crawl_fetch_inv)
    then show ?thesis using Inr r
      by (simp add: main_def Let_def fetched_append fetch_inv_def) (simp add: fetched_def)
  qed
qed

theorem visited_uniqueness_witness:
  "distinct (fetched (trace (crawl w1 ''http://x.com/'' 5 s0)))
   \<and> crawl w1 ''http://x.com/'' 5 (s0\<lparr>visited_pages := {''http://x.com/''}\<rparr>)
       = s0\<lparr>visited_pages := {''http://x.com/''}\<rparr>
   \<and> fetched (snd (main w1 [''-r'', ''http://x.com/''])) = [''http://x.com/'', ''http://x.com/p'']"
proof -
  have e: "fetched (snd (main w1 [''-r'', ''http://x.com/''])) = [''http://x.com/'', ''http://x.com/p'']"
    by code_simp
  show ?thesis
    using visited_uniqueness [of "''http://x.com/''" s0 w1 5 "[''-r'', ''http://x.com/'']"]
      visited_uniqueness [of "''http://x.com/''" "s0\<lparr>visited_pages := {''http://x.com/''}\<rparr>" w1 5 "[]"]
      e
    by (simp add: s0_def fetched_def)
qed



subsection \<open>Links stay on the host\<close>

lemma crawl_host_inv:
  assumes "host_inv h V0 F0 s" and "on_host h url"
  shows "host_inv h V0 F0 (crawl w url depth_left s)"
  using assms
proof (rule crawl_invariant [where Q = "on_host h"])
  fix st parts src assume "host_inv h V0 F0 st"
  then show "host_inv h V0 F0 (img_step w parts st src)"
    by (simp add: host_inv_def img_step_fetched img_step_visited)
next
  fix st :: Spider and u d
  assume "host_inv h V0 F0 st" "on_host h u"
  then show "host_inv h V0 F0 (st\<lparr>visited_pages := insert u (visited_pages st),
                         trace := trace st @ [Log_page u d, Http_get u]\<rparr>)"
    by (auto simp: host_inv_def fetched_append) (auto simp: fetched_def)
next
  fix st assume "host_inv h V0 F0 st"
  then show "host_inv h V0 F0 (st\<lparr>trace := trace st @ [Log_fetch_failed]\<rparr>)"
    by (simp add: host_inv_def fetched_append) (simp add: fetched_def)
next
  fix u parts href np
  assume "on_host h u" "parse_url u = Some parts" "parse_url (join_url parts href) = Some np"
    "to_lower (host np) = to_lower (host parts)"
  then show "on_host h (join_url parts href)" by (simp add: on_host_def)
qed

text \<open>
  Claim C4. In the link loop, a reference whose resolved URL parses to a host
  different (letter case apart, the whole host text compared) from the host of
  the page it stands on is not followed: the loop body leaves the state as it
  is, whatever the depth. So for a crawl started at a URL that parses, at any
  depth, every page visited and every page fetched since the start is on the
  host of the start URL.
\<close>

theorem links_same_host:
  assumes "parse_url url = Some parts"
  shows "(\<forall>np. parse_url (join_url base href) = Some np
               \<and> to_lower (host np) \<noteq> to_lower (host base)
            \<longrightarrow> follow_link w base d st href = st)
         \<and> (\<forall>u \<in> visited_pages (crawl w url depth_left s). u \<in> visited_pages s \<or> on_host (host parts) u)
         \<and> (\<forall>u \<in> set (fetched (trace (crawl w url depth_left s))).
               u \<in> set (fetched (trace s)) \<or> on_host (host parts) u)"
proof -
  have "host_inv (host parts) (visited_pages s) (set (fetched (trace s))) s"
    by (simp add: host_inv_def)
  moreover have "on_host (host parts) url" using assms by (simp add: on_host_def)
  ultimately have "host_inv (host parts) (visited_pages s) (set (fetched (trace s)))
                     (crawl w url depth_left s)"
    by (rule crawl_host_inv)
  then have "(\<forall>u \<in> visited_pages (crawl w url depth_left s). u \<in> visited_pages s \<or> on_host (host parts) u)
         \<and> (\<forall>u \<in> set (fetched (trace (crawl w url depth_left s))).
               u \<in> set (fetched (trace s)) \<or> on_host (host parts) u)"
    by (simp add: host_inv_def)
  moreover have "\<forall>np. parse_url (join_url base href) = Some np
               \<and> to_lower (host np) \<noteq> to_lower (host base)
            \<longrightarrow> follow_link w base d st href = st"
    by (simp add: follow_link_def Let_def)
  ultimately show ?thesis by simp
qed

theorem links_same_host_witness:
  "follow_link w1 \<lparr>scheme = ''http'', host = ''x.com'', path = ''/''\<rparr> 5 s0 ''http://z.com/'' = s0
   \<and> ''http://z.com/'' \<notin> visited_pages (crawl w1 ''http://x.com/'' 5 s0)
   \<and> ''http://z.com/'' \<notin> set (fetched (trace (crawl w1 ''http://x.com/'' 5 s0)))
   \<and> ''http://z.com/'' \<in> set (map (join_url \<lparr>scheme = ''http'', host = ''x.com'', path = ''/''\<rparr>)
                                 (extract_a_hrefs html1))"
proof -
  let ?parts = "\<lparr>scheme = ''http'', host = ''x.com'', path = ''/''\<rparr>"
  have p: "parse_url ''http://x.com/'' = Some ?parts" by code_simp
  have j: "join_url ?parts ''http://z.com/'' = ''http://z.com/''" by code_simp
  have pz: "parse_url ''http://z.com/'' = Some \<lparr>scheme = ''http'', host = ''z.com'', path = ''/''\<rparr>"
    by code_simp
  have d: "to_lower ''z.com'' \<noteq> to_lower ''x.com''" by code_simp
  have n: "\<not> on_host ''x.com'' ''http://z.com/''" by code_simp
  have l: "''http://z.com/'' \<in> set (map (join_url ?parts) (extract_a_hrefs html1))" by code_simp
  show ?thesis
    using links_same_host [OF p, where base = ?parts and href = "''http://z.com/''" and w = w1
        and d = 5 and st = s0 and depth_left = 5 and s = s0] j pz d n l
    by (auto simp: s0_def fetched_def)
qed


subsection \<open>Images from any host\<close>

lemma crawl_dl_inv:
  assumes "dl_inv ops D0 s"
  shows "dl_inv ops D0 (crawl w url depth_left s)"
  using assms
proof (rule crawl_invariant [where Q = "\<lambda>u. True"])
  fix st parts src assume "dl_inv ops D0 st"
  then show "dl_inv ops D0 (img_step w parts st src)"
    by (auto simp: dl_inv_def img_step_def Let_def)
qed (auto simp: dl_inv_def)

lemma crawl_downloaded_mono:
  assumes "u \<in> downloaded_images s"
  shows "u \<in> downloaded_images (crawl w url depth_left s)"
  using assms
proof (rule crawl_invariant [where Q = "\<lambda>u. True" and P = "\<lambda>st. u \<in> downloaded_images st"])
  fix st :: Spider and parts src assume "u \<in> downloaded_images st"
  then show "u \<in> downloaded_images (img_step w parts st src)"
    by (simp add: img_step_def Let_def)
qed simp_all

lemma img_step_mono: "u \<in> downloaded_images st \<Longrightarrow> u \<in> downloaded_images (img_step w parts st src)"
  by (simp add: img_step_def Let_def)

lemma img_step_claims:
  "join_url parts src \<noteq> [] \<Longrightarrow> is_image_url (join_url parts src) \<Longrightarrow>
   join_url parts src \<in> downloaded_images (img_step w parts st src)"
  by (simp add: img_step_def Let_def)

lemma img_pass_claims:
  assumes "src \<in> set srcs" "join_url parts src \<noteq> []" "is_image_url (join_url parts src)"
  shows "join_url parts src \<in> downloaded_images (foldl (img_step w parts) st srcs)"
  using assms(1)
proof (induction srcs arbitrary: st)
  case Nil
  then show ?case by simp
next
  case (Cons a srcs)
  show ?case
  proof (cases "a = src")
    case True
    have "join_url parts src \<in> downloaded_images (img_step w parts st a)"
      using True assms(2,3) by (simp add: img_step_claims)
    then have "join_url parts src \<in> downloaded_images (foldl (img_step w parts) (img_step w parts st a) srcs)"
      by (rule foldl_invariant) (rule img_step_mono)
    then show ?thesis by simp
  next
    case False
    then have "src \<in> set srcs" using Cons.prems by simp
    then show ?thesis using Cons.IH by simp
  qed
qed

lemma follow_link_downloaded_mono:
  "u \<in> downloaded_images st \<Longrightarrow> u \<in> downloaded_images (follow_link w parts d st href)"
  by (simp add: follow_link_def Let_def crawl_downloaded_mono split: option.splits)

text \<open>
  Claim C7. The image loop asks nothing about the host. When a page is fetched
  (its URL parses, is not yet visited, and the transport answers a body), every
  \<^verbatim>\<open>img\<close>/\<^verbatim>\<open>src\<close> value of the body whose resolved URL is not the empty "skip",
  passes \<open>is_image_url\<close> and is not yet in \<open>downloaded_images\<close> gets its download
  call, to the file named after it in the output directory, whatever its host.
\<close>

theorem images_any_host:
  assumes "url \<noteq> []" and "parse_url url = Some parts" and "url \<notin> visited_pages s"
    and "http_get_text w (trace s @ [Log_page url depth_left]) url = Some html"
    and "src \<in> set (extract_img_srcs html)"
    and "join_url parts src \<noteq> []" and "is_image_url (join_url parts src)"
    and "join_url parts src \<notin> downloaded_images s"
  shows "Http_download (join_url parts src)
           (path_join (out_dir (opt s)) (filename_from_url (join_url parts src)))
         \<in> set (trace (crawl w url depth_left s))"
proof -
  let ?u = "join_url parts src"
  define s2 where "s2 = s\<lparr>visited_pages := insert url (visited_pages s),
                          trace := trace s @ [Log_page url depth_left]\<rparr>
                       \<lparr>trace := trace s @ [Log_page url depth_left] @ [Http_get url]\<rparr>"
  define s3 where "s3 = foldl (img_step w parts) s2 (extract_img_srcs html)"
  have c: "crawl w url depth_left s =
            (if \<not> recursive (opt s3) then s3 else if depth_left \<le> 0 then s3
             else foldl (follow_link w parts depth_left) s3 (extract_a_hrefs html))"
    using assms(1-4) by (subst crawl_unfold) (simp add: s2_def s3_def Let_def)
  have "?u \<in> downloaded_images s3" unfolding s3_def using assms(5-7) by (rule img_pass_claims)
  moreover from this
  have "?u \<in> downloaded_images (foldl (follow_link w parts depth_left) s3 (extract_a_hrefs html))"
    by (rule foldl_invariant) (rule follow_link_downloaded_mono)
  ultimately have "?u \<in> downloaded_images (crawl w url depth_left s)" using c by simp
  moreover have "dl_inv (opt s) (downloaded_images s) (crawl w url depth_left s)"
    by (rule crawl_dl_inv) (simp add: dl_inv_def)
  ultimately show ?thesis using assms(8) by (auto simp: dl_inv_def)
qed

theorem images_any_host_witness:
  "Http_download ''http://cdn.y.org/a.png'' ''./data/a.png''
     \<in> set (trace (crawl w1 ''http://x.com/'' 1 s0))
   \<and> \<not> on_host ''x.com'' ''http://cdn.y.org/a.png''"
proof -
  let ?parts = "\<lparr>scheme = ''http'', host = ''x.com'', path = ''/''\<rparr>"
  have 1: "''http://x.com/'' \<noteq> []" by simp
  have 2: "parse_url ''http://x.com/'' = Some ?parts" by code_simp
  have 3: "''http://x.com/'' \<notin> visited_pages s0" by (simp add: s0_def)
  have 4: "http_get_text w1 (trace s0 @ [Log_page ''http://x.com/'' 1]) ''http://x.com/'' = Some html1"
    by (simp add: w1_def)
  have 5: "''http://cdn.y.org/a.png'' \<in> set (extract_img_srcs html1)" by code_simp
  have j: "join_url ?parts ''http://cdn.y.org/a.png'' = ''http://cdn.y.org/a.png''" by code_simp
  have 6: "join_url ?parts ''http://cdn.y.org/a.png'' \<noteq> []" by (simp add: j)
  have 7: "is_image_url (join_url ?parts ''http://cdn.y.org/a.png'')" by code_simp
  have 8: "join_url ?parts ''http://cdn.y.org/a.png'' \<notin> downloaded_images s0" by (simp add: s0_def)
  have f: "path_join (out_dir (opt s0)) (filename_from_url ''http://cdn.y.org/a.png'') = ''./data/a.png''"
    by code_simp
  have n: "\<not> on_host ''x.com'' ''http://cdn.y.org/a.png''" by code_simp
  show ?thesis
    using images_any_host [OF 1 2 3 4 5 6 7 8] n by (simp add: j f)
qed

section \<open>Properties of the command line and the summary\<close>

subsection \<open>What the summary counts\<close>

lemma logged_pages_append: "logged_pages (t @ t') = logged_pages t @ logged_pages t'"
  by (simp add: logged_pages_def)

lemma download_calls_append: "download_calls (t @ t') = download_calls t @ download_calls t'"
  by (simp add: download_calls_def)

lemma crawl_count_inv:
  assumes "count_inv s"
  shows "count_inv (crawl w url depth_left s)"
  using assms
proof (rule crawl_invariant [where Q = "\<lambda>u. True"])
  fix st parts src assume "count_inv st"
  then show "count_inv (img_step w parts st src)"
    by (auto simp: count_inv_def img_step_def Let_def logged_pages_append download_calls_append)
       (auto simp: logged_pages_def download_calls_def)
next
  fix st :: Spider and u d
  assume "count_inv st" "u \<notin> visited_pages st"
  then show "count_inv (st\<lparr>visited_pages := insert u (visited_pages st),
                         trace := trace st @ [Log_page u d, Http_get u]\<rparr>)"
    by (auto simp: count_inv_def logged_pages_append download_calls_append)
       (auto simp: logged_pages_def download_calls_def)
next
  fix st assume "count_inv st"
  then show "count_inv (st\<lparr>trace := trace st @ [Log_fetch_failed]\<rparr>)"
    by (simp add: count_inv_def logged_pages_append download_calls_append)
       (simp add: logged_pages_def download_calls_def)
qed simp_all

text \<open>
  The last line of a run that reaches the crawl gives the number of pages
  announced by a \<^verbatim>\<open>[PAGE]\<close> line, fetched or not, and the number of download
  calls, successful or not.
\<close>

lemma done_line_counts:
  assumes "main_setup w args = Inr (ops, url, depth)"
  shows "\<exists>t. snd (main w args) = t @ [Log_done (length (logged_pages t)) (length (download_calls t))]"
proof -
  let ?i = "\<lparr>opt = ops, visited_pages = {}, downloaded_images = {}, trace = []\<rparr>"
  let ?s = "crawl w url depth ?i"
  have "count_inv ?i" by (simp add: count_inv_def logged_pages_def download_calls_def)
  then have "count_inv ?s" by (rule crawl_count_inv)
  then have d: "distinct (logged_pages (trace ?s))"
    "set (logged_pages (trace ?s)) = visited_pages ?s"
    "distinct (download_calls (trace ?s))"
    "set (download_calls (trace ?s)) = downloaded_images ?s"
    by (simp_all add: count_inv_def)
  have "card (visited_pages ?s) = length (logged_pages (trace ?s))"
    using distinct_card [OF d(1)] by (simp only: d(2))
  moreover have "card (downloaded_images ?s) = length (download_calls (trace ?s))"
    using distinct_card [OF d(3)] by (simp only: d(4))
  ultimately show ?thesis using assms by (simp add: main_def Let_def)
qed

subsection \<open>The depth of the crawl\<close>

text \<open>A depth other than zero given with \<^verbatim>\<open>-l\<close> is the depth of the crawl.\<close>

lemma given_depth_kept:
  assumes "is_number n" and "stoi n = Some v" and "v \<noteq> 0"
    and "url \<noteq> []" and "url \<notin> {''-r'', ''-l'', ''-p'', ''-h'', ''--help''}"
    and "parse_url url = Some p" and "create_directories w ''./data''"
  shows "main_setup w [''-r'', ''-l'', n, url]
         = Inr (\<lparr>recursive = True, max_depth = v, out_dir = ''./data''\<rparr>, url, v)"
  using assms by (simp add: main_setup_def)

subsection \<open>Two runs\<close>

text \<open>
  Claim C2 at \<^verbatim>\<open>-r -l 0\<close>. The depth given is 0, and the crawl is started with
  depth 5: the test \<^verbatim>\<open>opt.recursive && opt.max_depth == 0\<close> cannot tell a given 0
  from an absent \<^verbatim>\<open>-l\<close>.
\<close>

theorem depth_zero_becomes_five:
  "main_setup w2 [''-r'', ''-l'', ''0'', ''http://x.com/'']
     = Inr (\<lparr>recursive = True, max_depth = 5, out_dir = ''./data''\<rparr>, ''http://x.com/'', 5)"
  by code_simp

text \<open>
  Claim C9 on a run whose only image download fails. The page is fetched, the
  download of \<^verbatim>\<open>a.png\<close> is called and fails, no download succeeds, and the summary
  reports one downloaded image: it prints the size of \<open>downloaded_images\<close>, which
  holds every URL a download was tried for.
\<close>

theorem summary_counts_failed_download:
  "main w2 [''http://x.com/'']
     = (Exit 0,
        [Log_page ''http://x.com/'' 0, Http_get ''http://x.com/'',
         Http_download ''http://x.com/a.png'' ''./data/a.png'',
         Log_img_failed ''http://x.com/a.png'', Log_done 1 1])
   \<and> download_successes (snd (main w2 [''http://x.com/''])) = []"
  by code_simp


section \<open>Properties of the extractors\<close>

subsection \<open>bt never lengthens the input\<close>

lemma bt_shorter:
  "st' \<in> set (bt r st) \<Longrightarrow> length (fst (snd st')) \<le> length (fst (snd st))"
proof (induction r st arbitrary: st' rule: bt.induct)
  case (1 P pc s cs)
  then show ?case by (auto split: list.splits if_splits)
next
  case (3 r1 r2 st)
  from "3.prems" obtain m where m: "m \<in> set (bt r1 st)" "st' \<in> set (bt r2 m)" by auto
  from "3.IH"(1) [OF m(1)] "3.IH"(2) [OF m(1) m(2)] show ?case by simp
next
  case (5 r pc s cs)
  show ?case
  proof (cases "st' = (pc, s, cs)")
    case True
    then show ?thesis by simp
  next
    case False
    from "5.prems" have "st' \<in> set (concat (map (\<lambda>(pc', s', cs').
             if length s' < length s then bt (Star r) (pc', s', cs') else []) (bt r (pc, s, cs)))
           @ [(pc, s, cs)])"
      by (subst (asm) bt.simps(5))
    with False obtain pc' s' cs' where m: "(pc', s', cs') \<in> set (bt r (pc, s, cs))"
      "length s' < length s" "st' \<in> set (bt (Star r) (pc', s', cs'))"
      by (auto split: if_splits)
    from "5.IH"(2) [OF m(1) refl refl m(2) m(3)] m(2) show ?thesis by simp
  qed
next
  case (6 n r pc s cs)
  then show ?case by fastforce
qed (auto split: if_splits)


lemma bt_shorter':
  "(pc', s', cs') \<in> set (bt r (pc, s, cs)) \<Longrightarrow> length s' \<le> length s"
  using bt_shorter [of "(pc', s', cs')" r "(pc, s, cs)"] by simp

lemma regex_search_bound:
  "regex_search r pc s = Some (i, n, cs) \<Longrightarrow> i + n \<le> length s"
proof (induction s arbitrary: pc i)
  case Nil
  then show ?case
    by (subst (asm) regex_search.simps) (auto split: list.splits)
next
  case (Cons c t)
  show ?case
  proof (cases "bt r (pc, c # t, Map.empty)")
    case Nil
    with Cons.prems obtain j where "regex_search r (Some c) t = Some (j, n, cs)" "i = Suc j"
      by (subst (asm) regex_search.simps) auto
    with Cons.IH show ?thesis by fastforce
  next
    case (Cons m ms)
    with Cons.prems show ?thesis
      by (subst (asm) regex_search.simps) (auto split: prod.splits)
  qed
qed

subsection \<open>Patterns with one way to match\<close>

lemma det_Sym: "det (Sym P)"
  by (auto simp: det_def split: list.splits)

lemma det_Eps: "det Eps"
  by (simp add: det_def)

lemma det_WordB: "det WordB"
  by (auto simp: det_def)

lemma det_Seq: "det r1 \<Longrightarrow> det r2 \<Longrightarrow> det (Seq r1 r2)"
proof (unfold det_def, intro allI)
  fix st
  assume 1: "\<forall>st. length (bt r1 st) \<le> 1" and 2: "\<forall>st. length (bt r2 st) \<le> 1"
  show "length (bt (Seq r1 r2) st) \<le> 1"
  proof (cases "bt r1 st")
    case Nil
    then show ?thesis by simp
  next
    case (Cons m ms)
    with 1 [rule_format, of st] have "ms = []" by simp
    with Cons 2 [rule_format, of m] show ?thesis by simp
  qed
qed

text \<open>
  A greedy run of one character class, followed by a pattern that cannot start
  with a character of the class: the run takes all it can, and nothing else is
  tried with success.
\<close>

lemma star_sym_seq:
  assumes rej: "\<And>pc c s cs. P c \<Longrightarrow> bt r (pc, c # s, cs) = []"
  shows "bt (Seq (Star (Sym P)) r) (pc, s, cs)
         = bt r (if takeWhile P s = [] then pc else Some (last (takeWhile P s)), dropWhile P s, cs)"
proof (induction s arbitrary: pc)
  case Nil
  show ?case by (simp add: bt.simps(5))
next
  case (Cons c t)
  show ?case
  proof (cases "P c")
    case True
    have "bt (Seq (Star (Sym P)) r) (pc, c # t, cs)
          = bt (Seq (Star (Sym P)) r) (Some c, t, cs) @ bt r (pc, c # t, cs)"
      using True by (simp add: bt.simps(5) [of "Sym P" pc "c # t"])
    also have "\<dots> = bt (Seq (Star (Sym P)) r) (Some c, t, cs)" using True by (simp add: rej)
    finally show ?thesis using True Cons.IH [of "Some c"] by simp
  next
    case False
    then show ?thesis by (simp add: bt.simps(5))
  qed
qed

lemma det_star_sym_seq:
  assumes "\<And>pc c s cs. P c \<Longrightarrow> bt r (pc, c # s, cs) = []" and "det r"
  shows "det (Seq (Star (Sym P)) r)"
  unfolding det_def
proof
  fix st :: mstate
  obtain pc s cs where st: "st = (pc, s, cs)" by (cases st) auto
  have "bt (Seq (Star (Sym P)) r) st
        = bt r (if takeWhile P s = [] then pc else Some (last (takeWhile P s)), dropWhile P s, cs)"
    unfolding st by (rule star_sym_seq) (rule assms(1))
  moreover have "length (bt r (if takeWhile P s = [] then pc else Some (last (takeWhile P s)),
                               dropWhile P s, cs)) \<le> 1"
    using assms(2) unfolding det_def by blast
  ultimately show "length (bt (Seq (Star (Sym P)) r) st) \<le> 1" by (simp only:)
qed

lemma det_ci: "det (ci a)"
  by (simp add: ci_def det_Sym)

lemma ci_seq_rejects:
  "tolower c \<noteq> tolower a \<Longrightarrow> bt (Seq (ci a) r) (pc, c # s, cs) = []"
  by (simp add: ci_def)

lemma ci_seq_seq_rejects:
  "tolower c \<noteq> tolower a \<Longrightarrow> bt (Seq (Seq (ci a) r) r') (pc, c # s, cs) = []"
  by (simp add: ci_def)

lemma tolower_gt: "tolower c = CHR ''>'' \<longleftrightarrow> c = CHR ''>''"
  by (simp add: tolower_def)

lemma tolower_lt: "tolower c = CHR ''<'' \<longleftrightarrow> c = CHR ''<''"
  by (simp add: tolower_def)

lemma isspace_not_i: "isspace c \<Longrightarrow> tolower c \<noteq> tolower CHR ''i''"
  by (auto simp: isspace_def tolower_def)

lemma tag_img_unfold:
  "tag_re ''img'' =
     Seq (ci CHR ''<'')
       (Seq (Star (Sym isspace))
         (Seq (Seq (ci CHR ''i'') (Seq (ci CHR ''m'') (Seq (ci CHR ''g'') Eps)))
           (Seq WordB
             (Seq (Star (Sym (\<lambda>c. c \<noteq> CHR ''>'')))
               (Seq (ci CHR ''>'') Eps)))))"
  by (simp add: tag_re_def seqs_def lit_def)

lemma det_tag_img: "det (tag_re ''img'')"
proof -
  let ?r6 = "Seq (ci CHR ''>'') Eps"
  let ?r5 = "Seq (Star (Sym (\<lambda>c. c \<noteq> CHR ''>''))) ?r6"
  let ?r4 = "Seq WordB ?r5"
  let ?lit = "Seq (ci CHR ''i'') (Seq (ci CHR ''m'') (Seq (ci CHR ''g'') Eps))"
  let ?r3 = "Seq ?lit ?r4"
  let ?r2 = "Seq (Star (Sym isspace)) ?r3"
  have d6: "det ?r6" by (intro det_Seq det_ci det_Eps)
  have d5: "det ?r5"
  proof (rule det_star_sym_seq)
    fix pc c s cs assume "c \<noteq> CHR ''>''"
    then have "tolower c \<noteq> tolower CHR ''>''" by (simp add: tolower_gt [of c] tolower_def)
    then show "bt ?r6 (pc, c # s, cs) = []" by (rule ci_seq_rejects)
  qed (rule d6)
  have d4: "det ?r4" by (rule det_Seq [OF det_WordB d5])
  have dl: "det ?lit" by (intro det_Seq det_ci det_Eps)
  have d3: "det ?r3" by (rule det_Seq [OF dl d4])
  have d2: "det ?r2"
  proof (rule det_star_sym_seq)
    fix pc c s cs assume "isspace c"
    then have "tolower c \<noteq> tolower CHR ''i''" by (rule isspace_not_i)
    then show "bt ?r3 (pc, c # s, cs) = []" by (rule ci_seq_seq_rejects)
  qed (rule d3)
  show ?thesis unfolding tag_img_unfold by (rule det_Seq [OF det_ci d2])
qed


subsection \<open>The two engines on a pattern with one way to match\<close>

lemma longest_det:
  "length ms \<le> 1 \<Longrightarrow> longest ms = (case ms of [] \<Rightarrow> None | m # _ \<Rightarrow> Some m)"
  by (cases ms) (auto simp: longest_def)

lemma regexec_from_det:
  assumes "det r"
  shows "regexec_from r pc s = regex_search r pc s"
proof (induction s arbitrary: pc)
  case Nil
  have "length (bt r (pc, [], Map.empty)) \<le> 1" using assms by (simp add: det_def)
  then show ?case
    by (subst regexec_from.simps, subst regex_search.simps)
       (auto simp: longest_det split: list.splits)
next
  case (Cons c t)
  have "length (bt r (pc, c # t, Map.empty)) \<le> 1" using assms by (simp add: det_def)
  then show ?case
    by (subst regexec_from.simps, subst regex_search.simps)
       (auto simp: longest_det Cons.IH split: list.splits)
qed

lemma ci_seq_context:
  "bt (Seq (ci a) r) (pc, s, cs) = bt (Seq (ci a) r) (pc', s, cs)"
  by (cases s) (simp_all add: ci_def)

lemma regex_search_context:
  assumes "bt r (pc, s, Map.empty) = bt r (pc', s, Map.empty)"
  shows "regex_search r pc s = regex_search r pc' s"
  using assms by (simp add: regex_search.simps [of r pc s] regex_search.simps [of r pc' s])

lemma regex_search_tag_context:
  "regex_search (tag_re ''img'') pc s = regex_search (tag_re ''img'') pc' s"
  unfolding tag_img_unfold by (rule regex_search_context) (rule ci_seq_context)

lemma ci_seq_consumes:
  assumes "(pc', s', cs') \<in> set (bt (Seq (ci a) r) (pc, s, cs))"
  shows "length s' < length s"
proof (cases s)
  case Nil
  with assms show ?thesis by (simp add: ci_def)
next
  case (Cons c t)
  with assms have "(pc', s', cs') \<in> set (bt r (Some c, t, cs))"
    by (auto simp: ci_def split: if_splits)
  then have "length s' \<le> length t" by (rule bt_shorter')
  with Cons show ?thesis by simp
qed

lemma regex_search_tag_nonempty:
  "regex_search (tag_re ''img'') pc s = Some (i, n, cs) \<Longrightarrow> 0 < n"
proof (induction s arbitrary: pc i)
  case Nil
  then show ?case
    unfolding tag_img_unfold
    by (subst (asm) regex_search.simps) (simp add: ci_def)
next
  case (Cons c t)
  show ?case
  proof (cases "bt (tag_re ''img'') (pc, c # t, Map.empty)")
    case Nil
    with Cons.prems obtain j where "regex_search (tag_re ''img'') (Some c) t = Some (j, n, cs)"
      by (subst (asm) regex_search.simps) auto
    then show ?thesis by (rule Cons.IH)
  next
    case (Cons m ms)
    obtain pc' s' cs' where m: "m = (pc', s', cs')" by (cases m) auto
    have "(pc', s', cs') \<in> set (bt (tag_re ''img'') (pc, c # t, Map.empty))"
      using Cons m by simp
    then have "length s' < length (c # t)" unfolding tag_img_unfold by (rule ci_seq_consumes)
    moreover have "n = length (c # t) - length s'"
      using Cons.prems Cons m by (subst (asm) regex_search.simps) simp
    ultimately show ?thesis by simp
  qed
qed

subsection \<open>The tag loop of the C program and the tag iterator of the C++ program\<close>

lemma attr_step_out: "attr_step attrre tag out = out @ attr_step attrre tag []"
  by (simp add: attr_step_def Let_def split: option.splits)

lemma tag_loop_all_matches:
  "tag_loop (tag_re ''img'') attrre p out
   = out @ concat (map (\<lambda>(tag, m). attr_step attrre tag []) (all_matches (tag_re ''img'') pc p))"
proof (induction p arbitrary: out pc rule: length_induct)
  case (1 p)
  have e: "regexec (tag_re ''img'') p = regex_search (tag_re ''img'') pc p"
    unfolding regexec_def regexec_from_det [OF det_tag_img]
    by (rule regex_search_tag_context)
  show ?case
  proof (cases "regex_search (tag_re ''img'') pc p")
    case None
    then show ?thesis using e
      by (subst tag_loop.simps, subst all_matches.simps) simp
  next
    case (Some a)
    obtain i n m where a: "a = (i, n, m)" by (cases a) auto
    have n: "0 < n" using Some a by (intro regex_search_tag_nonempty) auto
    have b: "i + n \<le> length p" using Some a by (intro regex_search_bound) auto
    have l: "length (drop (i + n) p) < length p" using n b by simp
    have "tag_loop (tag_re ''img'') attrre p out
          = tag_loop (tag_re ''img'') attrre (drop (i + n) p)
              (attr_step attrre (take n (drop i p)) out)"
      using e Some a n b by (subst tag_loop.simps) simp
    also have "\<dots> = attr_step attrre (take n (drop i p)) out
                    @ concat (map (\<lambda>(tag, m). attr_step attrre tag [])
                        (all_matches (tag_re ''img'') (Some (p ! (i + n - 1))) (drop (i + n) p)))"
      using "1.IH" l by blast
    also have "\<dots> = out @ concat (map (\<lambda>(tag, m). attr_step attrre tag [])
                        (all_matches (tag_re ''img'') pc p))"
      using Some a n b
      by (subst (2) all_matches.simps) (simp add: attr_step_out [of attrre _ out])
    finally show ?thesis .
  qed
qed

lemma cstr_id: "CHR 0x00 \<notin> set s \<Longrightarrow> cstr s = s"
  by (auto simp: cstr_def)

lemma attr_step_one: "length (attr_step attrre tag []) \<le> 1"
  by (simp add: attr_step_def Let_def split: option.splits)

subsection \<open>Where the attribute pattern cannot match\<close>

lemma attr_src_unfold:
  "attr_re ''src'' =
     Seq (Seq (ci CHR ''s'') (Seq (ci CHR ''r'') (Seq (ci CHR ''c'') Eps)))
       (Seq (Star (Sym isspace))
         (Seq (ci CHR ''='')
           (Seq (Star (Sym isspace))
             (Seq (Grp 1 (Alt (Seq (ci CHR 0x22) (Seq (Grp 2 (Star (Sym (\<lambda>c. c \<noteq> CHR 0x22))))
                                                  (Seq (ci CHR 0x22) Eps)))
                          (Alt (Seq (ci CHR 0x27) (Seq (Grp 3 (Star (Sym (\<lambda>c. c \<noteq> CHR 0x27))))
                                                    (Seq (ci CHR 0x27) Eps)))
                               (Grp 4 (Plus (Sym (\<lambda>c. \<not> isspace c \<and> c \<noteq> CHR ''>'')))))))
                  Eps))))"
  by (simp add: attr_re_def seqs_def lit_def)

lemma lit3_seq:
  "bt (Seq (Seq (ci a) (Seq (ci b) (Seq (ci c) Eps))) r) (pc, s, cs)
   = (case s of
        x # y # z # t \<Rightarrow>
          if tolower x = tolower a \<and> tolower y = tolower b \<and> tolower z = tolower c
          then bt r (Some z, t, cs) else []
      | _ \<Rightarrow> [])"
  by (auto simp: ci_def split: list.splits)

lemma tolower_src: "tolower CHR ''s'' = CHR ''s''" "tolower CHR ''r'' = CHR ''r''"
  "tolower CHR ''c'' = CHR ''c''"
  by (simp_all add: tolower_def)

lemma attr_needs_src:
  "\<not> starts_with (to_lower s) ''src'' \<Longrightarrow> bt (attr_re ''src'') (pc, s, cs) = []"
  unfolding attr_src_unfold lit3_seq
  by (auto simp: starts_with_def to_lower_def tolower_src split: list.splits)

lemma regex_search_none:
  "\<not> occurs ''src'' s \<Longrightarrow> regex_search (attr_re ''src'') pc s = None"
proof (induction s arbitrary: pc)
  case Nil
  have "bt (attr_re ''src'') (pc, [], Map.empty) = []"
    by (rule attr_needs_src) (simp add: starts_with_def to_lower_def)
  then show ?case by (subst regex_search.simps) simp
next
  case (Cons c t)
  then have "bt (attr_re ''src'') (pc, c # t, Map.empty) = []"
    by (intro attr_needs_src) simp
  moreover have "regex_search (attr_re ''src'') (Some c) t = None"
    using Cons by simp
  ultimately show ?case by (subst regex_search.simps) simp
qed

lemma regexec_from_none:
  "\<not> occurs ''src'' s \<Longrightarrow> regexec_from (attr_re ''src'') pc s = None"
proof (induction s arbitrary: pc)
  case Nil
  have "bt (attr_re ''src'') (pc, [], Map.empty) = []"
    by (rule attr_needs_src) (simp add: starts_with_def to_lower_def)
  then show ?case by (subst regexec_from.simps) (simp add: longest_def)
next
  case (Cons c t)
  then have "bt (attr_re ''src'') (pc, c # t, Map.empty) = []"
    by (intro attr_needs_src) simp
  moreover have "regexec_from (attr_re ''src'') (Some c) t = None"
    using Cons by simp
  ultimately show ?case by (subst regexec_from.simps) (simp add: longest_def)
qed


subsection \<open>The attribute pattern at the place of a plainly written attribute\<close>

lemma run_then: 
  assumes "list_all P ws" and "r = [] \<or> \<not> P (hd r)"
  shows "takeWhile P (ws @ r) = ws" and "dropWhile P (ws @ r) = r"
proof -
  have a: "\<And>x. x \<in> set ws \<Longrightarrow> P x" using assms(1) by (simp add: list_all_iff)
  have b: "takeWhile P r = []" "dropWhile P r = r" using assms(2) by (cases r; simp)+
  show "takeWhile P (ws @ r) = ws" using a b by (simp add: takeWhile_append2)
  show "dropWhile P (ws @ r) = r" using a b by (simp add: dropWhile_append2)
qed

lemma star_skip:
  assumes rej: "\<And>pc c s cs. P c \<Longrightarrow> bt r (pc, c # s, cs) = []"
    and "list_all P ws" and "t = [] \<or> \<not> P (hd t)"
  shows "bt (Seq (Star (Sym P)) r) (pc, ws @ t, cs)
         = bt r (if ws = [] then pc else Some (last ws), t, cs)"
proof -
  have "bt (Seq (Star (Sym P)) r) (pc, ws @ t, cs)
        = bt r (if takeWhile P (ws @ t) = [] then pc else Some (last (takeWhile P (ws @ t))),
                dropWhile P (ws @ t), cs)"
    by (rule star_sym_seq) (rule rej)
  then show ?thesis by (simp only: run_then [OF assms(2,3)])
qed

text \<open>The states a greedy run can end in, the longest run first.\<close>

lemma star_hd:
  "\<exists>pc' ms. bt (Star (Sym P)) (pc, s, cs) = (pc', dropWhile P s, cs) # ms"
proof (induction s arbitrary: pc)
  case Nil
  show ?case by (simp add: bt.simps(5))
next
  case (Cons c t)
  show ?case
  proof (cases "P c")
    case True
    from Cons [of "Some c"] obtain pc' ms where
      "bt (Star (Sym P)) (Some c, t, cs) = (pc', dropWhile P t, cs) # ms" by blast
    then show ?thesis using True by (simp add: bt.simps(5) [of _ pc "c # t"])
  next
    case False
    then show ?thesis by (simp add: bt.simps(5))
  qed
qed

lemma run_bound:
  assumes "w @ s' = val @ post" and "list_all P w" and "post = [] \<or> \<not> P (hd post)"
  shows "length post \<le> length s'"
proof (rule ccontr)
  assume "\<not> length post \<le> length s'"
  then have l: "length s' < length post" by simp
  from assms(1) have "length w + length s' = length val + length post"
    by (metis length_append)
  with l have lw: "length val < length w" by simp
  from l have pn: "post \<noteq> []" by auto
  have "w ! length val = (w @ s') ! length val" using lw by (simp add: nth_append)
  also have "\<dots> = (val @ post) ! length val" by (simp only: assms(1))
  also have "\<dots> = hd post" using pn by (simp add: nth_append hd_conv_nth)
  finally have "w ! length val = hd post" .
  moreover have "P (w ! length val)" using assms(2) lw by (simp add: list_all_length)
  ultimately show False using assms(3) pn by simp
qed


lemma mem_bare:
  assumes "(pc', s', cs') \<in> set (bt (Grp n (Plus (Sym P))) (pc, val @ post, cs))"
    and "post = [] \<or> \<not> P (hd post)"
  shows "length post \<le> length s'"
proof -
  from assms(1) obtain cs0 where "(pc', s', cs0) \<in> set (bt (Plus (Sym P)) (pc, val @ post, cs))"
    unfolding mem_Grp by blast
  from mem_Plus_Sym [OF this] obtain c w where "val @ post = (c # w) @ s'" "P c" "list_all P w"
    by blast
  then have "(c # w) @ s' = val @ post" "list_all P (c # w)" by simp_all
  then show ?thesis using assms(2) by (rule run_bound)
qed

lemma bare_hd:
  assumes "val \<noteq> []" and "list_all P val" and "post = [] \<or> \<not> P (hd post)"
  shows "\<exists>pc' ms. bt (Grp n (Plus (Sym P))) (pc, val @ post, cs)
                   = (pc', post, cs(n \<mapsto> val)) # ms"
proof -
  from assms(1) obtain c v where val: "val = c # v" by (cases val) auto
  with assms(2) have c: "P c" and v: "list_all P v" by simp_all
  from star_hd [of P "Some c" "v @ post" cs] obtain pc' ms where
    "bt (Star (Sym P)) (Some c, v @ post, cs) = (pc', dropWhile P (v @ post), cs) # ms" by blast
  then have "bt (Star (Sym P)) (Some c, v @ post, cs) = (pc', post, cs) # ms"
    by (simp only: run_then [OF v assms(3)])
  then have "bt (Plus (Sym P)) (pc, val @ post, cs) = (pc', post, cs) # ms"
    using c by (simp add: Plus_def val)
  then have "bt (Grp n (Plus (Sym P))) (pc, val @ post, cs)
             = (pc', post, cs(n \<mapsto> val))
               # map (\<lambda>(pc', s', cs'). (pc', s', cs'(n \<mapsto> take (length (val @ post) - length s') (val @ post)))) ms"
    by simp
  then show ?thesis by blast
qed

lemma star_sym_seq_gen:
  assumes rej: "\<And>pc c s cs. P c \<Longrightarrow> bt r (pc, c # s, cs) = []"
  shows "concat (map (\<lambda>(pc', s', cs'). bt r (pc', s', f s' cs')) (bt (Star (Sym P)) (pc, s, cs)))
         = bt r (if takeWhile P s = [] then pc else Some (last (takeWhile P s)),
                 dropWhile P s, f (dropWhile P s) cs)"
proof (induction s arbitrary: pc)
  case Nil
  show ?case by (simp add: bt.simps(5))
next
  case (Cons c t)
  show ?case
  proof (cases "P c")
    case True
    have "bt (Star (Sym P)) (pc, c # t, cs) = bt (Star (Sym P)) (Some c, t, cs) @ [(pc, c # t, cs)]"
      using True by (simp add: bt.simps(5) [of "Sym P" pc "c # t"])
    then have "concat (map (\<lambda>(pc', s', cs'). bt r (pc', s', f s' cs')) (bt (Star (Sym P)) (pc, c # t, cs)))
          = concat (map (\<lambda>(pc', s', cs'). bt r (pc', s', f s' cs')) (bt (Star (Sym P)) (Some c, t, cs)))
            @ bt r (pc, c # t, f (c # t) cs)"
      by simp
    also have "\<dots> = concat (map (\<lambda>(pc', s', cs'). bt r (pc', s', f s' cs')) (bt (Star (Sym P)) (Some c, t, cs)))"
      using True by (simp add: rej)
    finally show ?thesis using True Cons.IH [of "Some c"] by simp
  next
    case False
    then show ?thesis by (simp add: bt.simps(5))
  qed
qed

lemma grp_star_seq:
  assumes rej: "\<And>pc c s cs. P c \<Longrightarrow> bt r (pc, c # s, cs) = []"
  shows "bt (Seq (Grp n (Star (Sym P))) r) (pc, s, cs)
         = bt r (if takeWhile P s = [] then pc else Some (last (takeWhile P s)),
                 dropWhile P s, cs(n \<mapsto> takeWhile P s))"
proof -
  let ?f = "\<lambda>s' cs'. cs'(n \<mapsto> take (length s - length s') s)"
  have e: "(\<lambda>x. bt r (case x of (pc', s', cs') \<Rightarrow> (pc', s', ?f s' cs')))
           = (\<lambda>(pc', s', cs'). bt r (pc', s', ?f s' cs'))"
    by (auto simp: fun_eq_iff)
  have "bt (Seq (Grp n (Star (Sym P))) r) (pc, s, cs)
        = concat (map (\<lambda>x. bt r (case x of (pc', s', cs') \<Rightarrow> (pc', s', ?f s' cs')))
                      (bt (Star (Sym P)) (pc, s, cs)))"
    by (simp add: comp_def)
  also have "\<dots> = concat (map (\<lambda>(pc', s', cs'). bt r (pc', s', ?f s' cs'))
                      (bt (Star (Sym P)) (pc, s, cs)))"
    by (simp only: e)
  also have "\<dots> = bt r (if takeWhile P s = [] then pc else Some (last (takeWhile P s)),
                 dropWhile P s, ?f (dropWhile P s) cs)"
    by (rule star_sym_seq_gen) (rule rej)
  also have "take (length s - length (dropWhile P s)) s = takeWhile P s"
  proof -
    have "length s - length (dropWhile P s) = length (takeWhile P s)"
      by (metis add_diff_cancel_right' length_append takeWhile_dropWhile_id)
    then show ?thesis by (simp add: takeWhile_eq_take [symmetric])
  qed
  finally show ?thesis .
qed

lemma quoted_one:
  assumes "q \<notin> set v" and "tolower q = q" and "\<And>c. tolower c = q \<longleftrightarrow> c = q"
  shows "bt (Seq (ci q) (Seq (Grp n (Star (Sym (\<lambda>c. c \<noteq> q)))) (Seq (ci q) Eps)))
            (pc, q # v @ q # post, cs)
         = [(Some q, post, cs(n \<mapsto> v))]"
proof -
  let ?P = "\<lambda>c. c \<noteq> q"
  have lv: "list_all ?P v" using assms(1) by (auto simp: list_all_iff)
  have t: "takeWhile ?P (v @ q # post) = v" "dropWhile ?P (v @ q # post) = q # post"
    using run_then [OF lv, of "q # post"] by simp_all
  have rej: "bt (Seq (ci q) Eps) (pc, c # s, cs) = []" if "c \<noteq> q" for pc c s cs
  proof -
    have "tolower c \<noteq> tolower q" using that assms(2,3) by metis
    then show ?thesis by (simp add: ci_def)
  qed
  have "bt (Seq (Grp n (Star (Sym ?P))) (Seq (ci q) Eps)) (Some q, v @ q # post, cs)
        = bt (Seq (ci q) Eps)
            (if takeWhile ?P (v @ q # post) = [] then Some q
             else Some (last (takeWhile ?P (v @ q # post))),
             dropWhile ?P (v @ q # post), cs(n \<mapsto> takeWhile ?P (v @ q # post)))"
    by (rule grp_star_seq) (rule rej)
  then have "bt (Seq (Grp n (Star (Sym ?P))) (Seq (ci q) Eps)) (Some q, v @ q # post, cs)
        = bt (Seq (ci q) Eps) (if v = [] then Some q else Some (last v), q # post, cs(n \<mapsto> v))"
    by (simp only: t)
  also have "\<dots> = [(Some q, post, cs(n \<mapsto> v))]" by (simp add: ci_def)
  finally show ?thesis by (simp add: ci_def [of q])
qed

lemma other_quote_none:
  assumes "tolower c \<noteq> tolower q"
  shows "bt (Seq (ci q) r) (pc, c # s, cs) = []"
  using assms by (simp add: ci_def)


lemma tolower_dq: "tolower c = CHR 0x22 \<longleftrightarrow> c = CHR 0x22"
  by (simp add: tolower_def)

lemma tolower_sq: "tolower c = CHR 0x27 \<longleftrightarrow> c = CHR 0x27"
  by (simp add: tolower_def)

lemma grp_list:
  "bt (Seq (Grp n r) Eps) (pc, s, cs)
   = map (\<lambda>(pc', s', cs'). (pc', s', cs'(n \<mapsto> take (length s - length s') s))) (bt r (pc, s, cs))"
  by (simp add: comp_def)

lemma tolower_quotes: "tolower CHR 0x22 = CHR 0x22" "tolower CHR 0x27 = CHR 0x27"
  by (simp_all add: tolower_def)

text \<open>
  After \<^verbatim>\<open>src=\<close>: the first way to match is the whole value, and no other way
  reaches further, in the three ways of writing a value.
\<close>

lemma value_first:
  assumes post: "post = [] \<or> \<not> unq (hd post)"
    and shape: "(val = CHR 0x22 # v @ [CHR 0x22] \<and> CHR 0x22 \<notin> set v)
                \<or> (val = CHR 0x27 # v @ [CHR 0x27] \<and> CHR 0x27 \<notin> set v)
                \<or> (val = v \<and> v \<noteq> [] \<and> list_all unq v \<and> hd v \<noteq> CHR 0x22 \<and> hd v \<noteq> CHR 0x27)"
  shows "\<exists>pc' cs' ms.
           bt (Seq (Grp 1 (Alt (Seq (ci CHR 0x22) (Seq (Grp 2 (Star (Sym (\<lambda>c. c \<noteq> CHR 0x22))))
                                                (Seq (ci CHR 0x22) Eps)))
                        (Alt (Seq (ci CHR 0x27) (Seq (Grp 3 (Star (Sym (\<lambda>c. c \<noteq> CHR 0x27))))
                                                  (Seq (ci CHR 0x27) Eps)))
                             (Grp 4 (Plus (Sym unq)))))) Eps)
              (pc, val @ post, Map.empty)
           = (pc', post, cs') # ms
           \<and> attr_value cs' = v
           \<and> (\<forall>x \<in> set ms. length post \<le> length (fst (snd x)))"
proof -
  let ?A1 = "Seq (ci CHR 0x22) (Seq (Grp 2 (Star (Sym (\<lambda>c. c \<noteq> CHR 0x22)))) (Seq (ci CHR 0x22) Eps))"
  let ?A2 = "Seq (ci CHR 0x27) (Seq (Grp 3 (Star (Sym (\<lambda>c. c \<noteq> CHR 0x27)))) (Seq (ci CHR 0x27) Eps))"
  let ?A3 = "Grp 4 (Plus (Sym unq))"
  let ?st = "(pc, val @ post, Map.empty :: nat \<rightharpoonup> string)"
  let ?g = "\<lambda>(pc', s', cs' :: nat \<rightharpoonup> string).
              (pc' :: char option, s' :: string, cs'(1 \<mapsto> take (length (val @ post) - length s') (val @ post)))"
  have whole: "bt (Seq (Grp 1 (Alt ?A1 (Alt ?A2 ?A3))) Eps) ?st
               = map ?g (bt ?A1 ?st @ bt ?A2 ?st @ bt ?A3 ?st)"
    unfolding grp_list by (simp only: bt.simps(4) append_assoc)
  have b3: "\<forall>x \<in> set (bt ?A3 ?st). length post \<le> length (fst (snd x))"
  proof
    fix x assume x: "x \<in> set (bt ?A3 ?st)"
    obtain a b c where e: "x = (a, b, c)" by (cases x) auto
    from x post have "length post \<le> length b" unfolding e by (rule mem_bare)
    then show "length post \<le> length (fst (snd x))" by (simp add: e)
  qed
  have g_rest: "fst (snd (?g x)) = fst (snd x)" for x by (cases x) simp
  have b3': "\<forall>x \<in> set (map ?g (bt ?A3 ?st)). length post \<le> length (fst (snd x))"
    using b3 g_rest by auto
  from shape show ?thesis
  proof (elim disjE conjE)
    assume val: "val = CHR 0x22 # v @ [CHR 0x22]" and nv: "CHR 0x22 \<notin> set v"
    have vp: "val @ post = CHR 0x22 # v @ CHR 0x22 # post" by (simp add: val)
    have 1: "bt ?A1 ?st = [(Some CHR 0x22, post, [2 \<mapsto> v])]"
      unfolding vp by (rule quoted_one [OF nv tolower_quotes(1) tolower_dq])
    have 2: "bt ?A2 ?st = []"
      unfolding vp by (rule other_quote_none) (simp add: tolower_def)
    have "bt (Seq (Grp 1 (Alt ?A1 (Alt ?A2 ?A3))) Eps) ?st
          = (Some CHR 0x22, post, [2 \<mapsto> v, 1 \<mapsto> take (length (val @ post) - length post) (val @ post)])
            # map ?g (bt ?A3 ?st)"
      unfolding whole 1 2 by simp
    moreover have "attr_value [2 \<mapsto> v, 1 \<mapsto> take (length (val @ post) - length post) (val @ post)] = v"
      by (simp add: attr_value_def)
    ultimately show ?thesis using b3' by blast
  next
    assume val: "val = CHR 0x27 # v @ [CHR 0x27]" and nv: "CHR 0x27 \<notin> set v"
    have vp: "val @ post = CHR 0x27 # v @ CHR 0x27 # post" by (simp add: val)
    have 1: "bt ?A1 ?st = []"
      unfolding vp by (rule other_quote_none) (simp add: tolower_def)
    have 2: "bt ?A2 ?st = [(Some CHR 0x27, post, [3 \<mapsto> v])]"
      unfolding vp by (rule quoted_one [OF nv tolower_quotes(2) tolower_sq])
    have "bt (Seq (Grp 1 (Alt ?A1 (Alt ?A2 ?A3))) Eps) ?st
          = (Some CHR 0x27, post, [3 \<mapsto> v, 1 \<mapsto> take (length (val @ post) - length post) (val @ post)])
            # map ?g (bt ?A3 ?st)"
      unfolding whole 1 2 by simp
    moreover have "attr_value [3 \<mapsto> v, 1 \<mapsto> take (length (val @ post) - length post) (val @ post)] = v"
      by (simp add: attr_value_def)
    ultimately show ?thesis using b3' by blast
  next
    assume val: "val = v" and ne: "v \<noteq> []" and un: "list_all unq v"
      and h1: "hd v \<noteq> CHR 0x22" and h2: "hd v \<noteq> CHR 0x27"
    from ne obtain c w where cw: "v = c # w" by (cases v) auto
    have 1: "bt ?A1 ?st = []"
      unfolding val cw append_Cons using h1 cw
      by (intro other_quote_none) (simp add: tolower_dq tolower_def [of "CHR 0x22"])
    have 2: "bt ?A2 ?st = []"
      unfolding val cw append_Cons using h2 cw
      by (intro other_quote_none) (simp add: tolower_sq tolower_def [of "CHR 0x27"])
    from bare_hd [OF ne un post, of 4 pc Map.empty] obtain pc' ms where
      3: "bt ?A3 (pc, v @ post, Map.empty) = (pc', post, [4 \<mapsto> v]) # ms" by blast
    have ms: "\<forall>x \<in> set ms. length post \<le> length (fst (snd x))"
      using b3 unfolding val 3 by simp
    have "bt (Seq (Grp 1 (Alt ?A1 (Alt ?A2 ?A3))) Eps) ?st
          = (pc', post, [4 \<mapsto> v, 1 \<mapsto> take (length (val @ post) - length post) (val @ post)])
            # map ?g ms"
      unfolding whole 1 2 unfolding val 3 by simp
    moreover have "attr_value [4 \<mapsto> v, 1 \<mapsto> take (length (val @ post) - length post) (val @ post)] = v"
      by (simp add: attr_value_def)
    moreover have "\<forall>x \<in> set (map ?g ms). length post \<le> length (fst (snd x))"
      using ms g_rest by auto
    ultimately show ?thesis by blast
  qed
qed

lemma isspace_not_eq: "isspace c \<Longrightarrow> tolower c \<noteq> tolower CHR ''=''"
  by (auto simp: isspace_def tolower_def)

lemma isspace_not_quote:
  "isspace c \<Longrightarrow> tolower c \<noteq> tolower CHR 0x22 \<and> tolower c \<noteq> tolower CHR 0x27"
  by (auto simp: isspace_def tolower_def)

lemma value_rejects_space:
  assumes "isspace c"
  shows "bt (Seq (Grp 1 (Alt (Seq (ci CHR 0x22) r1) (Alt (Seq (ci CHR 0x27) r2)
                       (Grp 4 (Plus (Sym unq)))))) Eps) (pc, c # s, cs) = []"
proof -
  have 1: "bt (Seq (ci CHR 0x22) r1) (pc, c # s, cs) = []"
    using isspace_not_quote [OF assms] by (intro other_quote_none) simp
  have 2: "bt (Seq (ci CHR 0x27) r2) (pc, c # s, cs) = []"
    using isspace_not_quote [OF assms] by (intro other_quote_none) simp
  have 3: "bt (Grp 4 (Plus (Sym unq))) (pc, c # s, cs) = []"
    using assms by (simp add: Plus_def)
  show ?thesis unfolding grp_list by (simp only: bt.simps(4) 1 2 3) simp
qed

text \<open>The pattern at \<^verbatim>\<open>src\<close>, white space, \<^verbatim>\<open>=\<close>, white space, value.\<close>

lemma attr_here:
  assumes name: "to_lower name = ''src''"
    and ws: "list_all isspace ws1" "list_all isspace ws2"
    and post: "post = [] \<or> \<not> unq (hd post)"
    and shape: "(val = CHR 0x22 # v @ [CHR 0x22] \<and> CHR 0x22 \<notin> set v)
                \<or> (val = CHR 0x27 # v @ [CHR 0x27] \<and> CHR 0x27 \<notin> set v)
                \<or> (val = v \<and> v \<noteq> [] \<and> list_all unq v \<and> hd v \<noteq> CHR 0x22 \<and> hd v \<noteq> CHR 0x27)"
  shows "\<exists>pc' cs' ms.
           bt (attr_re ''src'') (pc, name @ ws1 @ ''='' @ ws2 @ val @ post, Map.empty)
           = (pc', post, cs') # ms
           \<and> attr_value cs' = v
           \<and> (\<forall>x \<in> set ms. length post \<le> length (fst (snd x)))"
proof -
  let ?A1 = "Seq (ci CHR 0x22) (Seq (Grp 2 (Star (Sym (\<lambda>c. c \<noteq> CHR 0x22)))) (Seq (ci CHR 0x22) Eps))"
  let ?A2 = "Seq (ci CHR 0x27) (Seq (Grp 3 (Star (Sym (\<lambda>c. c \<noteq> CHR 0x27)))) (Seq (ci CHR 0x27) Eps))"
  let ?R5 = "Seq (Grp 1 (Alt ?A1 (Alt ?A2 (Grp 4 (Plus (Sym unq)))))) Eps"
  let ?R4 = "Seq (Star (Sym isspace)) ?R5"
  let ?R3 = "Seq (ci CHR ''='') ?R4"
  let ?R2 = "Seq (Star (Sym isspace)) ?R3"
  let ?e = "Map.empty :: nat \<rightharpoonup> string"
  from name have "map tolower name = [CHR ''s'', CHR ''r'', CHR ''c'']"
    by (simp add: to_lower_def)
  then obtain x y z where n3: "name = [x, y, z]"
    and low: "tolower x = CHR ''s''" "tolower y = CHR ''r''" "tolower z = CHR ''c''"
    by (auto simp: map_eq_Cons_conv)
  have vne: "val \<noteq> []" using shape by auto
  have vh: "\<not> isspace (hd val)"
  proof -
    have "?thesis" if "val = CHR 0x22 # v @ [CHR 0x22]"
      using that by (simp add: isspace_def)
    moreover have "?thesis" if "val = CHR 0x27 # v @ [CHR 0x27]"
      using that by (simp add: isspace_def)
    moreover have "?thesis" if "val = v" "v \<noteq> []" "list_all unq v"
      using that by (cases v) simp_all
    ultimately show ?thesis using shape by blast
  qed
  from vne vh have vp: "val @ post = [] \<or> \<not> isspace (hd (val @ post))" by simp
  have s1: "bt (attr_re ''src'') (pc, name @ ws1 @ ''='' @ ws2 @ val @ post, ?e)
            = bt ?R2 (Some z, ws1 @ ''='' @ ws2 @ val @ post, ?e)"
    unfolding attr_src_unfold lit3_seq n3 by (simp add: low tolower_src)
  have s2: "bt ?R2 (Some z, ws1 @ ''='' @ ws2 @ val @ post, ?e)
            = bt ?R3 (if ws1 = [] then Some z else Some (last ws1), ''='' @ ws2 @ val @ post, ?e)"
  proof (rule star_skip [OF _ ws(1)])
    fix pc c s cs assume "isspace c"
    then show "bt ?R3 (pc, c # s, cs) = []" by (intro ci_seq_rejects isspace_not_eq)
  qed (simp add: isspace_def)
  have s3: "bt ?R3 (pc3, ''='' @ ws2 @ val @ post, ?e) = bt ?R4 (Some CHR ''='', ws2 @ val @ post, ?e)"
    for pc3
    by (simp add: ci_def)
  have s4: "bt ?R4 (Some CHR ''='', ws2 @ val @ post, ?e)
            = bt ?R5 (if ws2 = [] then Some CHR ''='' else Some (last ws2), val @ post, ?e)"
  proof (rule star_skip [OF _ ws(2) vp])
    fix pc c s cs assume "isspace c"
    then show "bt ?R5 (pc, c # s, cs) = []" by (rule value_rejects_space)
  qed
  from value_first [OF post shape, of "if ws2 = [] then Some CHR ''='' else Some (last ws2)"]
  show ?thesis unfolding s1 s2 s3 s4 .
qed


subsection \<open>Both searches find the plainly written attribute\<close>

lemma longest_first:
  assumes "\<forall>x \<in> set ms. length (fst (snd m)) \<le> length (fst (snd x))"
  shows "longest (m # ms) = Some m"
proof -
  have "foldl (\<lambda>b x. if length (fst (snd x)) < length (fst (snd b)) then x else b) m ms = m"
    using assms by (induction ms) auto
  then show ?thesis by (simp add: longest_def)
qed

lemma regex_search_here:
  assumes "bt r (pc, s, Map.empty) = (pc', s', cs') # ms"
  shows "regex_search r pc s = Some (0, length s - length s', cs')"
  using assms by (subst regex_search.simps) simp

lemma regexec_from_here:
  assumes "bt r (pc, s, Map.empty) = (pc', s', cs') # ms"
    and "\<forall>x \<in> set ms. length s' \<le> length (fst (snd x))"
  shows "regexec_from r pc s = Some (0, length s - length s', cs')"
proof -
  have "longest ((pc', s', cs') # ms) = Some (pc', s', cs')"
    using assms(2) by (intro longest_first) simp
  then show ?thesis using assms(1) by (subst regexec_from.simps) simp
qed

lemma starts_src_take:
  "starts_with (to_lower (c # p @ t)) ''src'' = starts_with (to_lower (c # p @ take 2 t)) ''src''"
proof -
  have "take 2 (p @ take 2 t) = take 2 (p @ t)" by (simp add: min_def)
  then have "take 2 (map tolower (p @ take 2 t)) = take 2 (map tolower (p @ t))"
    by (simp only: take_map)
  then show ?thesis by (simp add: starts_with_def to_lower_def numeral_3_eq_3 numeral_2_eq_2)
qed

lemma regex_search_skip:
  assumes "\<not> occurs ''src'' (pre @ take 2 t)"
  shows "regex_search (attr_re ''src'') pc (pre @ t)
         = map_option (\<lambda>(i, n, cs). (length pre + i, n, cs))
             (regex_search (attr_re ''src'') (if pre = [] then pc else Some (last pre)) t)"
  using assms
proof (induction pre arbitrary: pc)
  case Nil
  show ?case by (simp add: option.map_ident split_def)
next
  case (Cons c p)
  from Cons.prems have n: "\<not> starts_with (to_lower (c # p @ t)) ''src''"
    and o: "\<not> occurs ''src'' (p @ take 2 t)"
    by (simp_all add: starts_src_take [of c p t])
  have "bt (attr_re ''src'') (pc, c # p @ t, Map.empty) = []" using n by (rule attr_needs_src)
  then have "regex_search (attr_re ''src'') pc ((c # p) @ t)
             = map_option (\<lambda>(i, n, cs). (Suc i, n, cs)) (regex_search (attr_re ''src'') (Some c) (p @ t))"
    by (subst regex_search.simps) simp
  also have "\<dots> = map_option (\<lambda>(i, n, cs). (Suc i, n, cs))
                     (map_option (\<lambda>(i, n, cs). (length p + i, n, cs))
                        (regex_search (attr_re ''src'') (if p = [] then Some c else Some (last p)) t))"
    by (simp only: Cons.IH [OF o])
  finally show ?case by (simp add: option.map_comp comp_def split_def)
qed

lemma regexec_from_skip:
  assumes "\<not> occurs ''src'' (pre @ take 2 t)"
  shows "regexec_from (attr_re ''src'') pc (pre @ t)
         = map_option (\<lambda>(i, n, cs). (length pre + i, n, cs))
             (regexec_from (attr_re ''src'') (if pre = [] then pc else Some (last pre)) t)"
  using assms
proof (induction pre arbitrary: pc)
  case Nil
  show ?case by (simp add: option.map_ident split_def)
next
  case (Cons c p)
  from Cons.prems have n: "\<not> starts_with (to_lower (c # p @ t)) ''src''"
    and o: "\<not> occurs ''src'' (p @ take 2 t)"
    by (simp_all add: starts_src_take [of c p t])
  have "bt (attr_re ''src'') (pc, c # p @ t, Map.empty) = []" using n by (rule attr_needs_src)
  then have "regexec_from (attr_re ''src'') pc ((c # p) @ t)
             = map_option (\<lambda>(i, n, cs). (Suc i, n, cs)) (regexec_from (attr_re ''src'') (Some c) (p @ t))"
    by (subst regexec_from.simps) (simp add: longest_def)
  also have "\<dots> = map_option (\<lambda>(i, n, cs). (Suc i, n, cs))
                     (map_option (\<lambda>(i, n, cs). (length p + i, n, cs))
                        (regexec_from (attr_re ''src'') (if p = [] then Some c else Some (last p)) t))"
    by (simp only: Cons.IH [OF o])
  finally show ?case by (simp add: option.map_comp comp_def split_def)
qed


subsection \<open>One tag\<close>

lemma all_matches_none:
  "regex_search r pc s = None \<Longrightarrow> all_matches r pc s = []"
  by (subst all_matches.simps) simp

lemma no_src_tag:
  assumes "\<not> occurs ''src'' t"
  shows "attr_step (attr_re ''src'') t [] = []" and "extract_attr_urls t ''src'' = []"
proof -
  show "attr_step (attr_re ''src'') t [] = []"
    using regexec_from_none [OF assms, of None] by (simp add: attr_step_def regexec_def)
  show "extract_attr_urls t ''src'' = []"
    using all_matches_none [OF regex_search_none [OF assms, of None]]
    by (simp add: extract_attr_urls_def)
qed

lemma plain_src_tag:
  assumes "plain_src t v"
  shows "attr_step (attr_re ''src'') t [] = filter (\<lambda>x. x \<noteq> []) [trim v]"
    and "extract_attr_urls t ''src'' = filter (\<lambda>x. x \<noteq> []) [trim v]"
proof -
  from assms obtain pre name ws1 ws2 val post where
    t: "t = pre @ name @ ws1 @ ''='' @ ws2 @ val @ post"
    and name: "to_lower name = ''src''"
    and before: "\<not> occurs ''src'' (pre @ take 2 name)"
    and ws: "list_all isspace ws1" "list_all isspace ws2"
    and post: "post = [] \<or> isspace (hd post) \<or> hd post = CHR ''>''"
    and after: "\<not> occurs ''src'' post"
    and shape: "(val = CHR 0x22 # v @ [CHR 0x22] \<and> CHR 0x22 \<notin> set v)
             \<or> (val = CHR 0x27 # v @ [CHR 0x27] \<and> CHR 0x27 \<notin> set v)
             \<or> (val = v \<and> v \<noteq> [] \<and> list_all unq v \<and> hd v \<noteq> CHR 0x22 \<and> hd v \<noteq> CHR 0x27)"
    unfolding plain_src_def by blast
  let ?t' = "name @ ws1 @ ''='' @ ws2 @ val @ post"
  let ?pc = "if pre = [] then None else Some (last pre)"
  let ?r = "attr_re ''src''"
  have post': "post = [] \<or> \<not> unq (hd post)" using post by auto
  from attr_here [OF name ws post' shape, of ?pc] obtain pc' cs' ms where
    here: "bt ?r (?pc, ?t', Map.empty) = (pc', post, cs') # ms"
    and val: "attr_value cs' = v"
    and bound: "\<forall>x \<in> set ms. length post \<le> length (fst (snd x))" by blast
  have ln: "length name = 3" using name by (metis length_map to_lower_def length_Cons list.size(3) numeral_3_eq_3)
  then have t2: "take 2 ?t' = take 2 name" by simp
  let ?n = "length ?t' - length post"
  have npos: "0 < ?n" using ln by simp
  have dr: "drop (length pre + ?n) t = post" unfolding t by simp
  have before': "\<not> occurs ''src'' (pre @ take 2 ?t')" unfolding t2 by (rule before)
  have s: "regex_search ?r None t = Some (length pre, ?n, cs')"
    unfolding t
    by (simp only: regex_search_skip [OF before', of None] regex_search_here [OF here]) simp
  have x: "regexec ?r t = Some (length pre, ?n, cs')"
    unfolding t regexec_def
    by (simp only: regexec_from_skip [OF before', of None] regexec_from_here [OF here bound]) simp
  show "attr_step ?r t [] = filter (\<lambda>x. x \<noteq> []) [trim v]"
    using x val by (cases "v = []") (simp_all add: attr_step_def Let_def trim_def)
  have le: "\<not> length t < length pre + ?n" unfolding t by simp
  have "all_matches ?r None t
        = (take ?n (drop (length pre) t), cs')
          # all_matches ?r (Some (t ! (length pre + ?n - 1))) (drop (length pre + ?n) t)"
    using s npos le by (subst all_matches.simps) simp
  also have "all_matches ?r (Some (t ! (length pre + ?n - 1))) (drop (length pre + ?n) t) = []"
    unfolding dr by (rule all_matches_none) (rule regex_search_none [OF after])
  finally show "extract_attr_urls t ''src'' = filter (\<lambda>x. x \<noteq> []) [trim v]"
    using val by (simp add: extract_attr_urls_def)
qed

text \<open>
  Claim C10, as the code has it. On every HTML input without a NUL byte the two
  extractors go through the same \<^verbatim>\<open>img\<close> tags in the same order: the tag pattern
  matches in one way only, so the longest match of POSIX and the first match of
  the C++ library are the same. From each tag the C++ extractor takes the value
  of every match of the \<^verbatim>\<open>src\<close> pattern, the C extractor the value of one match at
  most. When every \<^verbatim>\<open>img\<close> tag of the input either has no \<^verbatim>\<open>src\<close> in it or has one
  plainly written \<^verbatim>\<open>src\<close> attribute (\<open>plain_src\<close>), the two extractors return the
  same sequence.
\<close>

theorem extractors_agree:
  assumes "CHR 0x00 \<notin> set html"
  shows "extract_tag_attrs html ''img'' ''src''
           = concat (map (\<lambda>(tag, m). attr_step (attr_re ''src'') tag [])
                         (all_matches (tag_re ''img'') None html))
         \<and> extract_img_srcs html
           = concat (map (\<lambda>(tag, m). extract_attr_urls tag ''src'')
                         (all_matches (tag_re ''img'') None html))
         \<and> length (attr_step (attr_re ''src'') tag []) \<le> 1
         \<and> ((\<forall>(tag, m) \<in> set (all_matches (tag_re ''img'') None html).
                \<not> occurs ''src'' tag \<or> (\<exists>v. plain_src tag v))
              \<longrightarrow> extract_tag_attrs html ''img'' ''src'' = extract_img_srcs html)"
proof -
  let ?tags = "all_matches (tag_re ''img'') None html"
  have a: "extract_tag_attrs html ''img'' ''src''
           = concat (map (\<lambda>(tag, m). attr_step (attr_re ''src'') tag []) ?tags)"
    using assms tag_loop_all_matches [of "attr_re ''src''" html "[]" None]
    by (simp add: extract_tag_attrs_def cstr_id)
  have b: "extract_img_srcs html
           = concat (map (\<lambda>(tag, m). extract_attr_urls tag ''src'') ?tags)"
    by (simp add: extract_img_srcs_def)
  have c: "length (attr_step (attr_re ''src'') tag []) \<le> 1" by (rule attr_step_one)
  have d: "extract_tag_attrs html ''img'' ''src'' = extract_img_srcs html"
    if h: "\<forall>(tag, m) \<in> set ?tags. \<not> occurs ''src'' tag \<or> (\<exists>v. plain_src tag v)"
  proof -
    have "attr_step (attr_re ''src'') t [] = extract_attr_urls t ''src''"
      if "(t, m) \<in> set ?tags" for t m
    proof -
      from h that have "\<not> occurs ''src'' t \<or> (\<exists>v. plain_src t v)" by blast
      then show ?thesis
      proof
        assume "\<not> occurs ''src'' t"
        then show ?thesis by (simp add: no_src_tag)
      next
        assume "\<exists>v. plain_src t v"
        then obtain v where "plain_src t v" ..
        then show ?thesis by (simp only: plain_src_tag)
      qed
    qed
    then have "map (\<lambda>(tag, m). attr_step (attr_re ''src'') tag []) ?tags
               = map (\<lambda>(tag, m). extract_attr_urls tag ''src'') ?tags"
      by (intro map_cong) auto
    then show ?thesis by (simp only: a b)
  qed
  from a b c d show ?thesis by blast
qed

theorem extractors_agree_witness:
  "extract_tag_attrs html3 ''img'' ''src'' = extract_img_srcs html3
   \<and> extract_img_srcs html3 = [''a.png'', ''c.gif'']"
proof -
  have n: "CHR 0x00 \<notin> set html3" by (simp add: html3_def)
  have tags: "map fst (all_matches (tag_re ''img'') None html3)
              = [''<img src=\"a.png\" alt='b.png'>'', ''<IMG  SRC = c.gif >'']"
    by code_simp
  have p1: "plain_src ''<img src=\"a.png\" alt='b.png'>'' ''a.png''"
    unfolding plain_src_def
    by (rule exI [of _ "''<img ''"], rule exI [of _ "''src''"], rule exI [of _ "[]"],
        rule exI [of _ "[]"], rule exI [of _ "''\"a.png\"''"], rule exI [of _ "'' alt='b.png'>''"])
       (simp add: starts_with_def to_lower_def tolower_def isspace_def)
  have p2: "plain_src ''<IMG  SRC = c.gif >'' ''c.gif''"
    unfolding plain_src_def
    by (rule exI [of _ "''<IMG  ''"], rule exI [of _ "''SRC''"], rule exI [of _ "'' ''"],
        rule exI [of _ "'' ''"], rule exI [of _ "''c.gif''"], rule exI [of _ "'' >''"])
       (simp add: starts_with_def to_lower_def tolower_def isspace_def)
  have all: "\<forall>(tag, m) \<in> set (all_matches (tag_re ''img'') None html3).
               \<not> occurs ''src'' tag \<or> (\<exists>v. plain_src tag v)"
  proof -
    have "\<not> occurs ''src'' tag \<or> (\<exists>v. plain_src tag v)"
      if "(tag, m) \<in> set (all_matches (tag_re ''img'') None html3)" for tag m
    proof -
      from that have "tag \<in> set (map fst (all_matches (tag_re ''img'') None html3))" by force
      then have "tag = ''<img src=\"a.png\" alt='b.png'>'' \<or> tag = ''<IMG  SRC = c.gif >''"
        unfolding tags by simp
      with p1 p2 show ?thesis by blast
    qed
    then show ?thesis by blast
  qed
  have e: "extract_img_srcs html3 = [''a.png'', ''c.gif'']" by code_simp
  from extractors_agree [OF n] all e show ?thesis by blast
qed

text \<open>
  The two extractors differ on a tag with two matches of the \<^verbatim>\<open>src\<close> pattern, here
  \<^verbatim>\<open>src\<close> and \<^verbatim>\<open>data-src\<close>: the C++ one returns both values, the C one the first.
\<close>

theorem extractors_differ_counterexample:
  "extract_tag_attrs html2 ''img'' ''src'' = [''a.png'']
   \<and> extract_img_srcs html2 = [''a.png'', ''b.png'']
   \<and> extract_tag_attrs html2 ''img'' ''src'' \<noteq> extract_img_srcs html2"
  by code_simp

end
